theory Spec2Isabelle
  imports Complex_Main "HOL-Library.AList"
begin

section \<open>Machine integers and time\<close>

text \<open>
  Go's \<open>int\<close> is a 64-bit two's complement integer on the 64-bit targets the
  proxy is built for.  The weights of the balancer and the failure counter of the
  health checker are modelled as \<open>int\<close>, and every addition and subtraction the
  source performs on them is followed by \<open>wrap64\<close>, the reduction into the range
  \<open>-2^63 .. 2^63 - 1\<close> that the hardware performs.  The counters that count the
  entries of a map (\<open>count\<close> in the two cleanup loops) are bounded by the size of
  the map and never wrap.
\<close>

definition wrap64 :: "int \<Rightarrow> int" where
  "wrap64 x = (x + 2 ^ 63) mod 2 ^ 64 - 2 ^ 63"

text \<open>
  An instant of \<open>time.Time\<close> is a number of nanoseconds on the clock's time
  line and a \<open>time.Duration\<close> a number of nanoseconds.  The clock reading
  \<open>time.Now()\<close> is passed to every operation that reads it.  Two readings of
  the clock during one run of the process are far less than the 292 years apart at
  which \<open>Time.Sub\<close> saturates, so the difference of two readings is exact.
\<close>

type_synonym time = int
type_synonym duration = int

section \<open>pkg/balancer: the backend record\<close>

record Backend =
  URL :: string
  Weight :: int
  CurrentWeight :: int
  Healthy :: bool

definition NewBackend :: "string \<Rightarrow> int \<Rightarrow> Backend" where
  "NewBackend url weight =
     \<lparr>URL = url, Weight = weight, CurrentWeight = 0, Healthy = True\<rparr>"

definition Backend_SetHealthy :: "Backend \<Rightarrow> bool \<Rightarrow> Backend" where
  "Backend_SetHealthy b healthy = b\<lparr>Healthy := healthy\<rparr>"

definition IsHealthy :: "Backend \<Rightarrow> bool" where
  "IsHealthy b = Healthy b"

section \<open>pkg/balancer: smooth weighted round robin\<close>

text \<open>
  The pool is a slice of pointers to distinct \<open>Backend\<close> objects.  The model
  keeps the objects themselves in the list; the identity of a backend is its
  position in the pool, and \<open>NextBackend\<close> returns that position.
\<close>

datatype error = ErrNoHealthyBackends

record SRR =
  backends :: "Backend list"

definition NewSRR :: SRR where
  "NewSRR = \<lparr>backends = []\<rparr>"

definition AddBackend :: "SRR \<Rightarrow> Backend \<Rightarrow> SRR" where
  "AddBackend s backend = s\<lparr>backends := backends s @ [backend]\<rparr>"

text \<open>The loop of \<open>SRR.SetHealthy\<close>: the first backend with the URL is switched.\<close>

fun SetHealthy_loop :: "Backend list \<Rightarrow> string \<Rightarrow> bool \<Rightarrow> Backend list \<times> bool" where
  "SetHealthy_loop [] url healthy = ([], False)"
| "SetHealthy_loop (b # bs) url healthy =
     (if URL b = url then (Backend_SetHealthy b healthy # bs, True)
      else (case SetHealthy_loop bs url healthy of (bs', r) \<Rightarrow> (b # bs', r)))"

definition SRR_SetHealthy :: "SRR \<Rightarrow> string \<Rightarrow> bool \<Rightarrow> SRR \<times> bool" where
  "SRR_SetHealthy s url healthy =
     (case SetHealthy_loop (backends s) url healthy of
        (bs', r) \<Rightarrow> (s\<lparr>backends := bs'\<rparr>, r))"

text \<open>
  The first loop of \<open>NextBackend\<close>: every healthy backend adds its weight to
  \<open>totalWeight\<close> and to its own \<open>CurrentWeight\<close>.
\<close>

fun accumulate :: "Backend list \<Rightarrow> int \<Rightarrow> Backend list \<times> int" where
  "accumulate [] totalWeight = ([], totalWeight)"
| "accumulate (b # bs) totalWeight =
     (if \<not> IsHealthy b then
        (case accumulate bs totalWeight of (bs', t) \<Rightarrow> (b # bs', t))
      else
        (case accumulate bs (wrap64 (totalWeight + Weight b)) of
           (bs', t) \<Rightarrow>
             (b\<lparr>CurrentWeight := wrap64 (CurrentWeight b + Weight b)\<rparr> # bs', t)))"

text \<open>
  The second loop: \<open>best\<close> is the pointer to the healthy backend with the
  largest \<open>CurrentWeight\<close> seen so far, \<open>None\<close> for \<open>nil\<close>.
\<close>

fun select_best :: "Backend list \<Rightarrow> nat list \<Rightarrow> nat option \<Rightarrow> nat option" where
  "select_best bs [] best = best"
| "select_best bs (i # ix) best =
     (if \<not> IsHealthy (bs ! i) then select_best bs ix best
      else if (case best of None \<Rightarrow> True
               | Some j \<Rightarrow> CurrentWeight (bs ! i) > CurrentWeight (bs ! j))
      then select_best bs ix (Some i)
      else select_best bs ix best)"

definition NextBackend :: "SRR \<Rightarrow> (error + nat) \<times> SRR" where
  "NextBackend s =
     (if length (backends s) = 0 then (Inl ErrNoHealthyBackends, s)
      else
        (case accumulate (backends s) 0 of
           (bs, totalWeight) \<Rightarrow>
             if totalWeight = 0 then (Inl ErrNoHealthyBackends, s\<lparr>backends := bs\<rparr>)
             else
               (case select_best bs [0..<length bs] None of
                  None \<Rightarrow> (Inl ErrNoHealthyBackends, s\<lparr>backends := bs\<rparr>)
                | Some i \<Rightarrow>
                    (Inr i,
                     s\<lparr>backends :=
                         bs[i := (bs ! i)\<lparr>CurrentWeight :=
                                   wrap64 (CurrentWeight (bs ! i) - totalWeight)\<rparr>]\<rparr>))))"

text \<open>\<open>n\<close> consecutive calls of \<open>NextBackend\<close>, with the value each returned.\<close>

fun calls :: "nat \<Rightarrow> SRR \<Rightarrow> (error + nat) list \<times> SRR" where
  "calls 0 s = ([], s)"
| "calls (Suc n) s =
     (case NextBackend s of
        (r, s') \<Rightarrow> (case calls n s' of (rs, s'') \<Rightarrow> (r # rs, s'')))"

text \<open>
  The dispatcher (\<open>Handler.ServeHTTP\<close>) asks the balancer for a backend first.
  Everything after that (parsing the URL, relaying the request and the response) is
  the parameter \<open>forward\<close>, which yields the status written to the client.
\<close>

definition StatusServiceUnavailable :: nat where
  "StatusServiceUnavailable = 503"

definition ServeHTTP :: "SRR \<Rightarrow> (Backend \<Rightarrow> nat) \<Rightarrow> nat \<times> SRR" where
  "ServeHTTP s forward =
     (case NextBackend s of
        (Inl err, s') \<Rightarrow> (StatusServiceUnavailable, s')
      | (Inr i, s') \<Rightarrow> (forward (backends s' ! i), s'))"

text \<open>
  The operations that act on a balancer: adding a new backend, switching the health
  of a backend through the balancer (by URL) or through the pointer the health
  checker holds (by position), and selecting the next backend.
\<close>

datatype balancer_op =
    OpAddBackend string int
  | OpSetHealthy string bool
  | OpBackendSetHealthy nat bool
  | OpNextBackend

fun apply_op :: "SRR \<Rightarrow> balancer_op \<Rightarrow> SRR" where
  "apply_op s (OpAddBackend url weight) = AddBackend s (NewBackend url weight)"
| "apply_op s (OpSetHealthy url healthy) = fst (SRR_SetHealthy s url healthy)"
| "apply_op s (OpBackendSetHealthy i healthy) =
     (if i < length (backends s)
      then s\<lparr>backends := (backends s)[i := Backend_SetHealthy (backends s ! i) healthy]\<rparr>
      else s)"
| "apply_op s OpNextBackend = snd (NextBackend s)"

definition run_ops :: "balancer_op list \<Rightarrow> SRR" where
  "run_ops ops = foldl apply_op NewSRR ops"

section \<open>pkg/health: the health checker\<close>

text \<open>
  \<open>c.failures\<close> and \<open>c.lastCheck\<close> are Go maps: reading an absent key yields
  the zero value.  \<open>c.mu\<close> is not reentrant: \<open>Lock\<close> on a mutex that the same
  goroutine already holds never returns.  The field \<open>mu\<close> says whether the mutex is
  held, and an operation either returns or stays blocked on \<open>c.mu\<close>; in both cases
  the outcome carries the state it has reached.
\<close>

record Checker =
  failureThreshold :: int
  recoveryInterval :: duration
  failures :: "string \<rightharpoonup> int"
  lastCheck :: "string \<rightharpoonup> time"
  mu :: bool

datatype 'a outcome = Returns 'a | Blocked 'a

datatype probe = RequestError | NetworkError | Response int

definition StatusOK :: int where
  "StatusOK = 200"

definition failure_count :: "Checker \<Rightarrow> string \<Rightarrow> int" where
  "failure_count c url = (case failures c url of None \<Rightarrow> 0 | Some n \<Rightarrow> n)"

text \<open>
  \<open>time.Since\<close> of the map's entry; for an absent key the entry is the zero
  \<open>time.Time\<close> (year 1), and the difference saturates at the largest duration.
\<close>

definition Since :: "time \<Rightarrow> time option \<Rightarrow> duration" where
  "Since now t = (case t of None \<Rightarrow> 2 ^ 63 - 1 | Some u \<Rightarrow> now - u)"

definition handleFailure :: "Checker \<Rightarrow> Backend \<Rightarrow> (Checker \<times> Backend) outcome" where
  "handleFailure c backend =
     (if mu c then Blocked (c, backend)
      else
        let c1 = c\<lparr>mu := True\<rparr>;
            n = wrap64 (failure_count c1 (URL backend) + 1);
            c2 = c1\<lparr>failures := (failures c1)(URL backend \<mapsto> n)\<rparr>;
            backend' =
              (if n \<ge> failureThreshold c2 then
                 (if IsHealthy backend then Backend_SetHealthy backend False else backend)
               else backend)
        in Returns (c2\<lparr>mu := False\<rparr>, backend'))"

definition handleSuccess :: "Checker \<Rightarrow> Backend \<Rightarrow> (Checker \<times> Backend) outcome" where
  "handleSuccess c backend =
     (if mu c then Blocked (c, backend)
      else
        let c1 = c\<lparr>mu := True\<rparr>;
            c2 = (if failure_count c1 (URL backend) > 0
                  then c1\<lparr>failures := (failures c1)(URL backend \<mapsto> 0)\<rparr> else c1);
            backend' =
              (if \<not> IsHealthy backend then Backend_SetHealthy backend True else backend)
        in Returns (c2\<lparr>mu := False\<rparr>, backend'))"

text \<open>
  \<open>checkBackend\<close> with the clock readings \<open>now\<close> (at the recovery test) and
  \<open>now'\<close> (when the response has arrived) and the result of the probe.  After a
  response the function locks \<open>c.mu\<close>, defers the unlock, and calls the handler
  with the mutex held.
\<close>

definition checkBackend ::
    "Checker \<Rightarrow> Backend \<Rightarrow> time \<Rightarrow> time \<Rightarrow> probe \<Rightarrow> (Checker \<times> Backend) outcome" where
  "checkBackend c backend now now' result =
     (if mu c then Blocked (c, backend)
      else
        let wasHealthy = IsHealthy backend;
            lastCheckV = (if \<not> wasHealthy then lastCheck c (URL backend) else None)
        in
          if \<not> wasHealthy \<and> Since now lastCheckV < recoveryInterval c then Returns (c, backend)
          else
            (case result of
               RequestError \<Rightarrow> handleFailure c backend
             | NetworkError \<Rightarrow> handleFailure c backend
             | Response statusCode \<Rightarrow>
                 let c1 = c\<lparr>mu := True\<rparr>;
                     c2 = c1\<lparr>lastCheck := (lastCheck c1)(URL backend \<mapsto> now')\<rparr>
                 in
                   (case (if statusCode = StatusOK then handleSuccess c2 backend
                          else handleFailure c2 backend) of
                      Returns (c3, backend') \<Rightarrow> Returns (c3\<lparr>mu := False\<rparr>, backend')
                    | Blocked st \<Rightarrow> Blocked st)))"

section \<open>pkg/cache: the response cache\<close>

text \<open>
  A Go map is an association list with distinct keys; the order of the list is the
  order in which \<open>range\<close> visits the entries, which Go leaves open.
\<close>

type_synonym bytes = "nat list"
type_synonym header = "(string \<times> string list) list"

record Entry =
  Key :: string
  Value :: bytes
  Header :: header
  ExpiresAt :: time
  CreatedAt :: time

definition NewEntry :: "string \<Rightarrow> bytes \<Rightarrow> header \<Rightarrow> duration \<Rightarrow> time \<Rightarrow> Entry" where
  "NewEntry key val hdr ttl now =
     \<lparr>Key = key, Value = val, Header = hdr, ExpiresAt = now + ttl, CreatedAt = now\<rparr>"

text \<open>\<open>time.Now().After(e.ExpiresAt)\<close>: strictly later.\<close>

definition IsExpired :: "Entry \<Rightarrow> time \<Rightarrow> bool" where
  "IsExpired e now = (now > ExpiresAt e)"

record Cache =
  entries :: "(string \<times> Entry) list"
  ttl :: duration

definition NewCache :: "duration \<Rightarrow> Cache" where
  "NewCache d = \<lparr>entries = [], ttl = d\<rparr>"

definition Get :: "Cache \<Rightarrow> string \<Rightarrow> time \<Rightarrow> (bytes \<times> header) option" where
  "Get c key now =
     (case map_of (entries c) key of
        None \<Rightarrow> None
      | Some entry \<Rightarrow> if IsExpired entry now then None else Some (Value entry, Header entry))"

definition Set :: "Cache \<Rightarrow> string \<Rightarrow> bytes \<Rightarrow> header \<Rightarrow> time \<Rightarrow> Cache" where
  "Set c key val hdr now =
     c\<lparr>entries := AList.update key (NewEntry key val hdr (ttl c) now) (entries c)\<rparr>"

definition Delete :: "Cache \<Rightarrow> string \<Rightarrow> Cache" where
  "Delete c key = c\<lparr>entries := AList.delete key (entries c)\<rparr>"

text \<open>
  The loop of \<open>CleanupExpired\<close> ranges over the entries the map held when the loop
  started and deletes from the map as it goes.
\<close>

fun CleanupExpired_loop ::
    "time \<Rightarrow> (string \<times> Entry) list \<Rightarrow> (string \<times> Entry) list \<Rightarrow> nat
       \<Rightarrow> (string \<times> Entry) list \<times> nat" where
  "CleanupExpired_loop now [] m count = (m, count)"
| "CleanupExpired_loop now ((key, entry) # rest) m count =
     (if now > ExpiresAt entry
      then CleanupExpired_loop now rest (AList.delete key m) (count + 1)
      else CleanupExpired_loop now rest m count)"

definition CleanupExpired :: "Cache \<Rightarrow> time \<Rightarrow> Cache \<times> nat" where
  "CleanupExpired c now =
     (case CleanupExpired_loop now (entries c) (entries c) 0 of
        (m, count) \<Rightarrow> (c\<lparr>entries := m\<rparr>, count))"

definition Cache_Size :: "Cache \<Rightarrow> nat" where
  "Cache_Size c = length (entries c)"

section \<open>pkg/ratelimit: the per-client rate limiter\<close>

text \<open>
  Modelled from the spec: \<open>rate.Limiter\<close> of golang.org/x/time/rate is a dependency
  whose source is not part of the repository.  The spec describes it as a token
  bucket of capacity \<open>burst\<close> that starts full and refills at \<open>rate\<close> tokens per
  second: on each \<open>Allow\<close> the bucket is advanced to the current time, adding
  \<open>rate * dt\<close> tokens capped at \<open>burst\<close>; with at least one token it consumes one
  and returns true, otherwise it returns false.  \<open>last\<close> is \<open>None\<close> until
  the first call.
\<close>

record rate_Limiter =
  rate_limit :: real
  rate_burst :: int
  tokens :: real
  last :: "time option"

definition rate_NewLimiter :: "real \<Rightarrow> int \<Rightarrow> rate_Limiter" where
  "rate_NewLimiter r b = \<lparr>rate_limit = r, rate_burst = b, tokens = of_int b, last = None\<rparr>"

definition rate_Allow :: "rate_Limiter \<Rightarrow> time \<Rightarrow> bool \<times> rate_Limiter" where
  "rate_Allow rl now =
     (let elapsed = (case last rl of None \<Rightarrow> 0 | Some t \<Rightarrow> max 0 (now - t));
          t1 = min (of_int (rate_burst rl))
                   (tokens rl + rate_limit rl * (of_int elapsed / 1000000000))
      in if t1 \<ge> 1 then (True, rl\<lparr>tokens := t1 - 1, last := Some now\<rparr>)
         else (False, rl\<lparr>tokens := t1, last := Some now\<rparr>))"

record clientLimiter =
  limiter :: rate_Limiter
  lastSeen :: time

record Limiter =
  limiters :: "(string \<times> clientLimiter) list"
  limit :: real
  burst :: int

definition NewLimiter :: "int \<Rightarrow> int \<Rightarrow> Limiter" where
  "NewLimiter requestsPerMinute b =
     \<lparr>limiters = [], limit = of_int requestsPerMinute / 60, burst = b\<rparr>"

text \<open>
  The clock readings taken within one call are the one reading \<open>now\<close>.
  \<open>bucket_Allow\<close> is the call \<open>limiter.limiter.Allow()\<close> on the bucket that the
  map holds for \<open>ip\<close>.
\<close>

definition bucket_Allow ::
    "Limiter \<Rightarrow> string \<Rightarrow> clientLimiter \<Rightarrow> time \<Rightarrow> bool \<times> Limiter" where
  "bucket_Allow r ip cl now =
     (case rate_Allow (limiter cl) now of
        (ok, rl') \<Rightarrow>
          (ok, r\<lparr>limiters := AList.update ip (cl\<lparr>limiter := rl'\<rparr>) (limiters r)\<rparr>))"

definition createNewLimiter :: "Limiter \<Rightarrow> string \<Rightarrow> time \<Rightarrow> bool \<times> Limiter" where
  "createNewLimiter r ip now =
     (case map_of (limiters r) ip of
        Some cl \<Rightarrow>
          (let cl1 = cl\<lparr>lastSeen := now\<rparr>;
               r1 = r\<lparr>limiters := AList.update ip cl1 (limiters r)\<rparr>
           in bucket_Allow r1 ip cl1 now)
      | None \<Rightarrow>
          (let cl = \<lparr>limiter = rate_NewLimiter (limit r) (burst r), lastSeen = now\<rparr>;
               r1 = r\<lparr>limiters := AList.update ip cl (limiters r)\<rparr>
           in bucket_Allow r1 ip cl now))"

definition Allow :: "Limiter \<Rightarrow> string \<Rightarrow> time \<Rightarrow> bool \<times> Limiter" where
  "Allow r ip now =
     (case map_of (limiters r) ip of
        None \<Rightarrow> createNewLimiter r ip now
      | Some cl \<Rightarrow>
          (let cl1 = cl\<lparr>lastSeen := now\<rparr>;
               r1 = r\<lparr>limiters := AList.update ip cl1 (limiters r)\<rparr>
           in bucket_Allow r1 ip cl1 now))"

fun CleanupStale_loop ::
    "time \<Rightarrow> duration \<Rightarrow> (string \<times> clientLimiter) list \<Rightarrow> (string \<times> clientLimiter) list
       \<Rightarrow> nat \<Rightarrow> (string \<times> clientLimiter) list \<times> nat" where
  "CleanupStale_loop now idleTimeout [] m count = (m, count)"
| "CleanupStale_loop now idleTimeout ((ip, cl) # rest) m count =
     (if now - lastSeen cl > idleTimeout
      then CleanupStale_loop now idleTimeout rest (AList.delete ip m) (count + 1)
      else CleanupStale_loop now idleTimeout rest m count)"

definition CleanupStale :: "Limiter \<Rightarrow> duration \<Rightarrow> time \<Rightarrow> Limiter \<times> nat" where
  "CleanupStale r idleTimeout now =
     (case CleanupStale_loop now idleTimeout (limiters r) (limiters r) 0 of
        (m, count) \<Rightarrow> (r\<lparr>limiters := m\<rparr>, count))"

definition Size :: "Limiter \<Rightarrow> nat" where
  "Size r = length (limiters r)"

section \<open>Auxiliary notions\<close>

text \<open>The exact sum of the weights of the healthy backends.\<close>

definition healthy_total :: "Backend list \<Rightarrow> int" where
  "healthy_total bs = sum_list (map Weight (filter IsHealthy bs))"

text \<open>What the first loop of \<open>NextBackend\<close> does to one backend.\<close>

definition bump :: "Backend \<Rightarrow> Backend" where
  "bump b =
     (if IsHealthy b then b\<lparr>CurrentWeight := wrap64 (CurrentWeight b + Weight b)\<rparr> else b)"

text \<open>The same step when the addition does not overflow.\<close>

definition raise :: "Backend \<Rightarrow> Backend" where
  "raise b = b\<lparr>CurrentWeight := CurrentWeight b + Weight b\<rparr>"

text \<open>The exact sum of the current weights of the pool.\<close>

definition cw_sum :: "SRR \<Rightarrow> int" where
  "cw_sum s = sum_list (map CurrentWeight (backends s))"

text \<open>
  A limiter with one bucket for each of five clients, each seen at time 0 only
  (the scenario of the idle reaper).
\<close>

definition five_clients :: Limiter where
  "five_clients =
     snd (Allow (snd (Allow (snd (Allow (snd (Allow (snd (Allow (NewLimiter 60 10)
       ''10.0.0.1'' 0)) ''10.0.0.2'' 0)) ''10.0.0.3'' 0)) ''10.0.0.4'' 0)) ''10.0.0.5'' 0)"

section \<open>Facts about 64-bit arithmetic\<close>

lemma wrap64_id: "- (2 ^ 63) \<le> x \<Longrightarrow> x < 2 ^ 63 \<Longrightarrow> wrap64 x = x"
  by (simp add: wrap64_def)

lemma wrap64_range: "- (2 ^ 63) \<le> wrap64 x \<and> wrap64 x < 2 ^ 63"
proof -
  have "0 \<le> (x + 2 ^ 63) mod (2 ^ 64 :: int)" "(x + 2 ^ 63) mod (2 ^ 64 :: int) < 2 ^ 64"
    by simp_all
  then show ?thesis by (simp add: wrap64_def)
qed

lemma wrap64_cong: "wrap64 x mod 2 ^ 64 = x mod 2 ^ 64"
proof -
  have "wrap64 x = (x + 2 ^ 63) mod 2 ^ 64 - 2 ^ 63" by (simp add: wrap64_def)
  then have "wrap64 x mod 2 ^ 64 = ((x + 2 ^ 63) mod 2 ^ 64 - 2 ^ 63) mod 2 ^ 64" by simp
  also have "\<dots> = ((x + 2 ^ 63) - 2 ^ 63) mod 2 ^ 64" by (rule mod_diff_left_eq)
  finally show ?thesis by simp
qed

lemma wrap64_eq_iff: "wrap64 x = wrap64 y \<longleftrightarrow> x mod 2 ^ 64 = y mod 2 ^ 64"
proof
  assume "wrap64 x = wrap64 y"
  then have "wrap64 x mod 2 ^ 64 = wrap64 y mod 2 ^ 64" by simp
  then show "x mod 2 ^ 64 = y mod 2 ^ 64" by (simp only: wrap64_cong)
next
  assume h: "x mod 2 ^ 64 = y mod 2 ^ 64"
  have "(x + 2 ^ 63) mod 2 ^ 64 = (x mod 2 ^ 64 + 2 ^ 63) mod 2 ^ 64" by (simp add: mod_add_left_eq)
  also have "\<dots> = (y mod 2 ^ 64 + 2 ^ 63) mod 2 ^ 64" using h by simp
  also have "\<dots> = (y + 2 ^ 63) mod 2 ^ 64" by (simp add: mod_add_left_eq)
  finally show "wrap64 x = wrap64 y" by (simp add: wrap64_def)
qed

lemma wrap64_add_left: "wrap64 (wrap64 x + y) = wrap64 (x + y)"
  unfolding wrap64_eq_iff by (metis mod_add_left_eq wrap64_cong)

lemma wrap64_idem: "wrap64 (wrap64 x) = wrap64 x"
  unfolding wrap64_eq_iff by (rule wrap64_cong)

lemma wrap64_zero: "wrap64 0 = 0" by (simp add: wrap64_def)

section \<open>The balancer: the two loops of \<open>NextBackend\<close>\<close>

text \<open>
  The first loop applies \<open>bump\<close> to every backend and leaves in \<open>totalWeight\<close> the
  64-bit sum of the healthy weights.
\<close>

lemma fst_accumulate: "fst (accumulate bs t) = map bump bs"
  by (induction bs arbitrary: t) (simp_all add: bump_def split_beta)

lemma snd_accumulate: "wrap64 t = t \<Longrightarrow> snd (accumulate bs t) = wrap64 (t + healthy_total bs)"
proof (induction bs arbitrary: t)
  case Nil then show ?case by (simp add: healthy_total_def)
next
  case (Cons b bs)
  show ?case
  proof (cases "IsHealthy b")
    case True
    have "snd (accumulate (b # bs) t) = snd (accumulate bs (wrap64 (t + Weight b)))"
      using True by (simp add: split_beta)
    also have "\<dots> = wrap64 (wrap64 (t + Weight b) + healthy_total bs)"
      by (rule Cons.IH) (rule wrap64_idem)
    also have "\<dots> = wrap64 (t + healthy_total (b # bs))"
      using True by (simp add: wrap64_add_left healthy_total_def add.assoc)
    finally show ?thesis .
  next
    case False
    then show ?thesis using Cons by (simp add: healthy_total_def split_beta)
  qed
qed

lemma accumulate_eq: "accumulate bs 0 = (map bump bs, wrap64 (healthy_total bs))"
  using fst_accumulate[of bs 0] snd_accumulate[of 0 bs] by (simp add: wrap64_zero prod_eq_iff)

text \<open>
  The second loop returns \<open>nil\<close> only when no backend is healthy; otherwise it
  returns a healthy backend whose current weight is the largest among the healthy.
\<close>

lemma select_best_None:
  "select_best bs ix best = None \<Longrightarrow> best = None \<and> (\<forall>i\<in>set ix. \<not> IsHealthy (bs ! i))"
proof (induction bs ix best rule: select_best.induct)
  case (1 bs best)
  then show ?case by simp
next
  case (2 bs k ix best)
  show ?case
  proof (cases "IsHealthy (bs ! k)")
    case False
    with "2.prems" "2.IH"(1) show ?thesis by simp
  next
    case True
    show ?thesis
    proof (cases "case best of None \<Rightarrow> True | Some j \<Rightarrow> CurrentWeight (bs ! k) > CurrentWeight (bs ! j)")
      case t: True
      with True "2.prems" have "select_best bs ix (Some k) = None" by simp
      with "2.IH"(2) True t show ?thesis by simp
    next
      case f: False
      with True "2.prems" have "select_best bs ix best = None" by simp
      with "2.IH"(3) True f have "best = None" by simp
      with f show ?thesis by simp
    qed
  qed
qed

lemma select_best_Some:
  "select_best bs ix best = Some i \<Longrightarrow> best = Some i \<or> (i \<in> set ix \<and> IsHealthy (bs ! i))"
proof (induction bs ix best rule: select_best.induct)
  case (1 bs best)
  then show ?case by simp
next
  case (2 bs k ix best)
  show ?case
  proof (cases "IsHealthy (bs ! k)")
    case False
    with "2.prems" "2.IH"(1) show ?thesis by auto
  next
    case True
    show ?thesis
    proof (cases "case best of None \<Rightarrow> True | Some j \<Rightarrow> CurrentWeight (bs ! k) > CurrentWeight (bs ! j)")
      case t: True
      with True "2.prems" have "select_best bs ix (Some k) = Some i" by simp
      with "2.IH"(2) True t show ?thesis by auto
    next
      case f: False
      with True "2.prems" have "select_best bs ix best = Some i" by simp
      with "2.IH"(3) True f show ?thesis by auto
    qed
  qed
qed

lemma select_best_max:
  "select_best bs ix best = Some i \<Longrightarrow>
     (\<forall>j\<in>set ix. IsHealthy (bs ! j) \<longrightarrow> CurrentWeight (bs ! j) \<le> CurrentWeight (bs ! i)) \<and>
     (\<forall>j. best = Some j \<longrightarrow> CurrentWeight (bs ! j) \<le> CurrentWeight (bs ! i))"
proof (induction bs ix best rule: select_best.induct)
  case (1 bs best)
  then show ?case by simp
next
  case (2 bs k ix best)
  then show ?case
    by (cases best) (auto split: if_splits)
qed

lemma bump_Healthy [simp]: "Healthy (bump b) = Healthy b" "IsHealthy (bump b) = IsHealthy b"
  "URL (bump b) = URL b" "Weight (bump b) = Weight b"
  by (simp_all add: bump_def IsHealthy_def)

lemma healthy_total_none: "\<forall>b\<in>set bs. \<not> Healthy b \<Longrightarrow> healthy_total bs = 0"
  by (induction bs) (simp_all add: healthy_total_def IsHealthy_def)

text \<open>The two outcomes of a call, by the total weight of the healthy backends.\<close>

lemma NextBackend_error:
  assumes "wrap64 (healthy_total (backends s)) = 0"
  shows "fst (NextBackend s) = Inl ErrNoHealthyBackends"
  using assms by (simp add: NextBackend_def accumulate_eq)

lemma NextBackend_pick:
  assumes "wrap64 (healthy_total (backends s)) \<noteq> 0"
  shows "\<exists>i. i < length (backends s) \<and> Healthy (backends s ! i) \<and>
     (\<forall>j < length (backends s). Healthy (backends s ! j) \<longrightarrow>
         CurrentWeight (bump (backends s ! j)) \<le> CurrentWeight (bump (backends s ! i))) \<and>
     NextBackend s = (Inr i, s\<lparr>backends := (map bump (backends s))
        [i := (bump (backends s ! i))\<lparr>CurrentWeight :=
            wrap64 (CurrentWeight (bump (backends s ! i)) - wrap64 (healthy_total (backends s)))\<rparr>]\<rparr>)"
proof -
  let ?bs = "backends s"
  let ?cs = "map bump ?bs"
  have ne: "?bs \<noteq> []" using assms by (auto simp: healthy_total_def wrap64_zero)
  have ex: "\<exists>b\<in>set ?bs. Healthy b"
  proof (rule ccontr)
    assume "\<not> (\<exists>b\<in>set ?bs. Healthy b)"
    then have "healthy_total ?bs = 0" by (intro healthy_total_none) blast
    with assms show False by (simp add: wrap64_zero)
  qed
  then obtain k where k: "k < length ?bs" "Healthy (?bs ! k)"
    by (auto simp: in_set_conv_nth)
  have "select_best ?cs [0..<length ?cs] None \<noteq> None"
  proof
    assume "select_best ?cs [0..<length ?cs] None = None"
    from select_best_None[OF this] k show False by (auto simp: IsHealthy_def)
  qed
  then obtain i where i: "select_best ?cs [0..<length ?cs] None = Some i" by auto
  from select_best_Some[OF i] have il: "i < length ?bs" and ih: "Healthy (?bs ! i)"
    by (auto simp: IsHealthy_def)
  from select_best_max[OF i] have
    mx: "\<forall>j < length ?bs. Healthy (?bs ! j) \<longrightarrow>
         CurrentWeight (bump (?bs ! j)) \<le> CurrentWeight (bump (?bs ! i))"
    using il by (auto simp: IsHealthy_def)
  have "NextBackend s = (Inr i, s\<lparr>backends := ?cs
        [i := (bump (?bs ! i))\<lparr>CurrentWeight :=
            wrap64 (CurrentWeight (bump (?bs ! i)) - wrap64 (healthy_total ?bs))\<rparr>]\<rparr>)"
    using ne assms i il by (simp add: NextBackend_def accumulate_eq)
  with il ih mx show ?thesis by blast
qed

section \<open>The balancer: one call without overflow\<close>

text \<open>
  When the current weights sum to 0 and each is above \<open>-T\<close>, each is at most
  \<open>(n - 1) * (T - 1)\<close>; and the largest of values with a positive sum is positive.
\<close>

lemma upper_from_sum:
  fixes v :: "nat \<Rightarrow> int"
  assumes s0: "(\<Sum>i<n. v i) = 0" and lo: "\<forall>i<n. - T < v i" and j: "j < n"
  shows "v j \<le> (int n - 1) * (T - 1)"
proof -
  have fin: "finite {..<n}" by simp
  have jm: "j \<in> {..<n}" using j by simp
  have split: "(\<Sum>i<n. v i) = v j + (\<Sum>i\<in>{..<n} - {j}. v i)"
    by (rule sum.remove[OF fin jm])
  have "(\<Sum>i\<in>{..<n} - {j}. (1 - T)) \<le> (\<Sum>i\<in>{..<n} - {j}. v i)"
    by (rule sum_mono) (use lo in force)
  moreover have "(\<Sum>i\<in>{..<n} - {j}. (1 - T)) = (int n - 1) * (1 - T)"
    using j by (simp add: of_nat_diff)
  ultimately have "(int n - 1) * (1 - T) \<le> - v j" using split s0 by linarith
  moreover have "(int n - 1) * (1 - T) = - ((int n - 1) * (T - 1))" by (simp add: algebra_simps)
  ultimately show ?thesis by linarith
qed

lemma max_positive:
  fixes u :: "nat \<Rightarrow> int"
  assumes pos: "0 < (\<Sum>i<n. u i)" and mx: "\<forall>i<n. u i \<le> u b"
  shows "0 < u b"
proof (rule ccontr)
  assume "\<not> 0 < u b"
  then have "\<forall>i<n. u i \<le> 0" using mx by force
  then have "(\<Sum>i<n. u i) \<le> 0" by (intro sum_nonpos) simp
  with pos show False by simp
qed

lemma sum_list_nth_lessThan: "sum_list xs = (\<Sum>i<length xs. xs ! i)"
  by (simp add: sum_list_sum_nth atLeast0LessThan)

lemma sum_list_map_nth: "sum_list (map f xs) = (\<Sum>i<length xs. f (xs ! i))"
proof -
  have "sum_list (map f xs) = (\<Sum>i<length (map f xs). map f xs ! i)"
    by (rule sum_list_nth_lessThan)
  also have "\<dots> = (\<Sum>i<length xs. f (xs ! i))"
    by (rule sum.cong) simp_all
  finally show ?thesis .
qed

lemma healthy_total_all:
  assumes "\<forall>i<length bs. Healthy (bs ! i)"
  shows "healthy_total bs = (\<Sum>i<length bs. Weight (bs ! i))"
proof -
  have "\<forall>b\<in>set bs. IsHealthy b" using assms by (auto simp: in_set_conv_nth IsHealthy_def)
  then have "filter IsHealthy bs = bs" by (simp add: filter_id_conv)
  then show ?thesis by (simp add: healthy_total_def sum_list_map_nth)
qed

text \<open>
  In a pool of healthy backends with positive weights of sum \<open>T\<close>, with
  \<open>n * T < 2^63\<close>, current weights of sum 0 and each above \<open>-T\<close>, no addition
  of a call overflows: the call raises every current weight by the weight, selects a
  backend whose raised current weight is positive, and lowers it by \<open>T\<close>.
\<close>

lemma NextBackend_step:
  fixes bs :: "Backend list" and T :: int
  assumes ne: "bs \<noteq> []"
    and H: "\<forall>i<length bs. Healthy (bs ! i)"
    and W: "\<forall>i<length bs. 0 < Weight (bs ! i)"
    and T: "T = (\<Sum>i<length bs. Weight (bs ! i))"
    and bound: "int (length bs) * T < 2 ^ 63"
    and S: "(\<Sum>i<length bs. CurrentWeight (bs ! i)) = 0"
    and lo: "\<forall>i<length bs. - T < CurrentWeight (bs ! i)"
    and s: "backends s = bs"
  shows "\<exists>b<length bs. 0 < CurrentWeight (bs ! b) + Weight (bs ! b) \<and>
           NextBackend s = (Inr b, s\<lparr>backends := (map raise bs)
              [b := (bs ! b)\<lparr>CurrentWeight := CurrentWeight (bs ! b) + Weight (bs ! b) - T\<rparr>]\<rparr>)"
proof -
  let ?n = "length bs"
  have n1: "1 \<le> int ?n" using ne by (cases bs) simp_all
  have Tpos: "0 < T" unfolding T using ne W by (intro sum_pos) auto
  have wT: "Weight (bs ! j) \<le> T" if "j < ?n" for j
    unfolding T using that W by (intro member_le_sum) (auto intro: less_imp_le)
  have "T \<le> int ?n * T" using n1 Tpos by (simp add: mult_le_cancel_right1)
  with bound have Tlt: "T < 2 ^ 63" by linarith
  have wrapT: "wrap64 T = T" using Tpos Tlt by (intro wrap64_id) simp_all
  have ht: "healthy_total bs = T" using healthy_total_all[OF H] T by simp
  have up: "CurrentWeight (bs ! j) + Weight (bs ! j) < 2 ^ 63" if j: "j < ?n" for j
  proof -
    have "CurrentWeight (bs ! j) \<le> (int ?n - 1) * (T - 1)"
      using upper_from_sum[where n="?n" and v="\<lambda>i. CurrentWeight (bs ! i)" and T=T and j=j] S lo j by simp
    moreover have "(int ?n - 1) * (T - 1) = int ?n * T - int ?n - T + 1"
      by (simp add: algebra_simps)
    ultimately show ?thesis using wT[OF j] n1 bound by linarith
  qed
  have bump_raise: "bump (bs ! j) = raise (bs ! j)" if j: "j < ?n" for j
  proof -
    have "- (2 ^ 63) \<le> CurrentWeight (bs ! j) + Weight (bs ! j)"
      using lo[rule_format, OF j] W[rule_format, OF j] Tlt by linarith
    then have "wrap64 (CurrentWeight (bs ! j) + Weight (bs ! j)) =
        CurrentWeight (bs ! j) + Weight (bs ! j)"
      using up[OF j] by (intro wrap64_id)
    then show ?thesis using H j by (simp add: bump_def raise_def IsHealthy_def)
  qed
  have mb: "map bump bs = map raise bs"
    by (rule nth_equalityI) (simp_all add: bump_raise)
  have "wrap64 (healthy_total (backends s)) \<noteq> 0" using s ht wrapT Tpos by simp
  from NextBackend_pick[OF this] obtain b where
    b: "b < ?n" and
    mx: "\<forall>j < ?n. Healthy (bs ! j) \<longrightarrow>
         CurrentWeight (bump (bs ! j)) \<le> CurrentWeight (bump (bs ! b))" and
    nb: "NextBackend s = (Inr b, s\<lparr>backends := (map bump bs)
        [b := (bump (bs ! b))\<lparr>CurrentWeight :=
            wrap64 (CurrentWeight (bump (bs ! b)) - wrap64 (healthy_total bs))\<rparr>]\<rparr>)"
    unfolding s by blast
  let ?u = "\<lambda>i. CurrentWeight (bs ! i) + Weight (bs ! i)"
  have mx': "\<forall>j<?n. ?u j \<le> ?u b"
    using mx H b by (simp add: bump_raise raise_def)
  have "(\<Sum>i<?n. ?u i) = T" using S T by (simp add: sum.distrib)
  then have upos: "0 < ?u b" using max_positive[where n="?n" and u="?u" and b=b] mx' Tpos by simp
  have "wrap64 (?u b - T) = ?u b - T"
    using upos Tlt up[OF b] Tpos by (intro wrap64_id) linarith+
  then have "(bump (bs ! b))\<lparr>CurrentWeight :=
            wrap64 (CurrentWeight (bump (bs ! b)) - wrap64 (healthy_total bs))\<rparr> =
        (bs ! b)\<lparr>CurrentWeight := ?u b - T\<rparr>"
    using b by (simp add: bump_raise raise_def ht wrapT)
  with nb have "NextBackend s = (Inr b, s\<lparr>backends := (map raise bs)
              [b := (bs ! b)\<lparr>CurrentWeight := ?u b - T\<rparr>]\<rparr>)"
    by (simp add: mb)
  with b upos show ?thesis by blast
qed

section \<open>The balancer: a whole period\<close>

lemma calls_add:
  "calls (a + b) s = (case calls a s of (r1, s1) \<Rightarrow>
      (case calls b s1 of (r2, s2) \<Rightarrow> (r1 @ r2, s2)))"
  by (induction a arbitrary: s) (simp_all add: split_beta)

lemma calls_snoc:
  "calls (Suc m) s = (case calls m s of (rs, s1) \<Rightarrow>
      (case NextBackend s1 of (r, s2) \<Rightarrow> (rs @ [r], s2)))"
  using calls_add[of m 1 s] by (simp add: split_beta)

lemma sum_count_Inr:
  fixes n :: nat
  assumes "set rs \<subseteq> Inr ` {..<n}"
  shows "(\<Sum>i<n. count_list rs (Inr i)) = length rs"
proof -
  have "sum (count_list rs) (Inr ` {..<n}) = length rs"
    by (rule sum_count_set[OF assms]) (rule finite_imageI, rule finite_lessThan)
  moreover have "sum (count_list rs) (Inr ` {..<n}) = (\<Sum>i<n. count_list rs (Inr i))"
    by (subst sum.reindex) (simp_all add: inj_on_def)
  ultimately show ?thesis by simp
qed

text \<open>
  After \<open>m \<le> T\<close> calls from the initial pool, the current weight of backend \<open>i\<close>
  is \<open>m * w i - T * c i\<close>, where \<open>c i\<close> counts how often \<open>i\<close> has been returned,
  and \<open>c i \<le> w i\<close>: a backend that has had its share has a current weight that
  is not positive and cannot be selected.
\<close>

lemma period_invariant:
  fixes s0 :: SRR and T :: int
  assumes H: "\<forall>i<length (backends s0). Healthy (backends s0 ! i)"
    and W: "\<forall>i<length (backends s0). 0 < Weight (backends s0 ! i)"
    and Z: "\<forall>i<length (backends s0). CurrentWeight (backends s0 ! i) = 0"
    and T: "T = (\<Sum>i<length (backends s0). Weight (backends s0 ! i))"
    and bound: "int (length (backends s0)) * T < 2 ^ 63"
    and m: "int m \<le> T"
  shows "\<exists>rs s1. calls m s0 = (rs, s1) \<and> length rs = m \<and>
      set rs \<subseteq> Inr ` {..<length (backends s0)} \<and>
      length (backends s1) = length (backends s0) \<and>
      (\<forall>i<length (backends s0). backends s1 ! i = (backends s0 ! i)\<lparr>CurrentWeight :=
          int m * Weight (backends s0 ! i) - T * int (count_list rs (Inr i))\<rparr>) \<and>
      (\<forall>i<length (backends s0).
          - T < int m * Weight (backends s0 ! i) - T * int (count_list rs (Inr i))) \<and>
      (\<forall>i<length (backends s0). int (count_list rs (Inr i)) \<le> Weight (backends s0 ! i))"
  using m
proof (induction m)
  case 0
  have "0 < T" if "i < length (backends s0)" for i
    unfolding T using that W by (intro sum_pos) auto
  moreover have "(backends s0 ! i)\<lparr>CurrentWeight := 0\<rparr> = backends s0 ! i"
    if "i < length (backends s0)" for i
    using Z that by simp
  ultimately show ?case using W by (auto intro: less_imp_le)
next
  case (Suc m)
  let ?ps = "backends s0"
  let ?n = "length ?ps"
  from Suc.prems have mT: "int m + 1 \<le> T" by simp
  then have "int m \<le> T" by simp
  from Suc.IH[OF this] obtain rs s1 where
    c: "calls m s0 = (rs, s1)" and lr: "length rs = m" and
    sub: "set rs \<subseteq> Inr ` {..<?n}" and
    len: "length (backends s1) = ?n" and
    rel: "\<forall>i<?n. backends s1 ! i = (?ps ! i)\<lparr>CurrentWeight :=
          int m * Weight (?ps ! i) - T * int (count_list rs (Inr i))\<rparr>" and
    lo: "\<forall>i<?n. - T < int m * Weight (?ps ! i) - T * int (count_list rs (Inr i))" and
    cw: "\<forall>i<?n. int (count_list rs (Inr i)) \<le> Weight (?ps ! i)"
    by blast
  let ?bs = "backends s1"
  let ?c = "\<lambda>i. int (count_list rs (Inr i))"
  have Tpos: "0 < T" using mT by linarith
  have ne: "?bs \<noteq> []"
  proof
    assume "?bs = []"
    then have "?n = 0" using len by simp
    then have "T = 0" using T by simp
    with Tpos show False by simp
  qed
  have wgt: "Weight (?bs ! i) = Weight (?ps ! i)" if "i < ?n" for i
    using rel that by simp
  have cur: "CurrentWeight (?bs ! i) = int m * Weight (?ps ! i) - T * ?c i" if "i < ?n" for i
    using rel that by simp
  have H1: "\<forall>i<length ?bs. Healthy (?bs ! i)"
  proof (intro allI impI)
    fix i assume "i < length ?bs"
    then have i: "i < ?n" by (simp only: len)
    show "Healthy (?bs ! i)" using H[rule_format, OF i] by (simp add: rel[rule_format, OF i])
  qed
  have W1: "\<forall>i<length ?bs. 0 < Weight (?bs ! i)"
  proof (intro allI impI)
    fix i assume "i < length ?bs"
    then have i: "i < ?n" by (simp only: len)
    have "0 < Weight (?ps ! i)" by (rule W[rule_format, OF i])
    then show "0 < Weight (?bs ! i)" by (simp only: wgt[OF i])
  qed
  have T1: "T = (\<Sum>i<length ?bs. Weight (?bs ! i))"
    unfolding T len by (rule sum.cong) (simp_all add: wgt)
  have bound1: "int (length ?bs) * T < 2 ^ 63" using bound len by simp
  have sc: "(\<Sum>i<?n. ?c i) = int m"
    using sum_count_Inr[OF sub] lr by (simp flip: of_nat_sum)
  have "(\<Sum>i<?n. CurrentWeight (?bs ! i)) = (\<Sum>i<?n. int m * Weight (?ps ! i) - T * ?c i)"
    by (rule sum.cong) (simp_all add: cur)
  also have "\<dots> = int m * (\<Sum>i<?n. Weight (?ps ! i)) - T * (\<Sum>i<?n. ?c i)"
    by (simp add: sum_subtractf sum_distrib_left)
  also have "\<dots> = 0" using sc T by simp
  finally have S1: "(\<Sum>i<length ?bs. CurrentWeight (?bs ! i)) = 0" using len by simp
  have lo1: "\<forall>i<length ?bs. - T < CurrentWeight (?bs ! i)"
  proof (intro allI impI)
    fix i assume "i < length ?bs"
    then have i: "i < ?n" by (simp only: len)
    have "- T < int m * Weight (?ps ! i) - T * ?c i" by (rule lo[rule_format, OF i])
    then show "- T < CurrentWeight (?bs ! i)" by (simp only: cur[OF i])
  qed
  from NextBackend_step[OF ne H1 W1 T1 bound1 S1 lo1 refl] obtain b where
    b: "b < ?n" and
    upos: "0 < CurrentWeight (?bs ! b) + Weight (?bs ! b)" and
    nb: "NextBackend s1 = (Inr b, s1\<lparr>backends := (map raise ?bs)
              [b := (?bs ! b)\<lparr>CurrentWeight := CurrentWeight (?bs ! b) + Weight (?bs ! b) - T\<rparr>]\<rparr>)"
    using len by auto
  let ?s2 = "s1\<lparr>backends := (map raise ?bs)
              [b := (?bs ! b)\<lparr>CurrentWeight := CurrentWeight (?bs ! b) + Weight (?bs ! b) - T\<rparr>]\<rparr>"
  let ?rs = "rs @ [Inr b]"
  have c2: "calls (Suc m) s0 = (?rs, ?s2)"
    unfolding calls_snoc by (simp add: c nb)
  have cnt: "int (count_list ?rs (Inr i)) = ?c i + (if i = b then 1 else 0)" for i
    by simp
  have upos': "0 < int m * Weight (?ps ! b) - T * ?c b + Weight (?ps ! b)"
    using upos b by (simp add: cur wgt)
  have rel2: "backends ?s2 ! i = (?ps ! i)\<lparr>CurrentWeight :=
          int (Suc m) * Weight (?ps ! i) - T * int (count_list ?rs (Inr i))\<rparr>" if i: "i < ?n" for i
  proof (cases "i = b")
    case True
    then show ?thesis using i len rel by (simp add: algebra_simps)
  next
    case False
    then show ?thesis using i len rel by (simp add: raise_def algebra_simps)
  qed
  have lo2: "- T < int (Suc m) * Weight (?ps ! i) - T * int (count_list ?rs (Inr i))"
    if i: "i < ?n" for i
  proof (cases "i = b")
    case True
    then show ?thesis using upos' by (simp add: algebra_simps)
  next
    case False
    have "- T < int m * Weight (?ps ! i) - T * ?c i" using lo i by simp
    moreover have "0 < Weight (?ps ! i)" using W i by simp
    ultimately show ?thesis using False by (simp add: algebra_simps)
  qed
  have cw2: "int (count_list ?rs (Inr i)) \<le> Weight (?ps ! i)" if i: "i < ?n" for i
  proof (cases "i = b")
    case True
    have wpos: "0 < Weight (?ps ! b)" using W b by simp
    have "?c b < Weight (?ps ! b)"
    proof (rule ccontr)
      assume "\<not> ?c b < Weight (?ps ! b)"
      then have "Weight (?ps ! b) \<le> ?c b" by simp
      then have "T * Weight (?ps ! b) \<le> T * ?c b"
        using Tpos by (intro mult_left_mono) simp_all
      moreover have "(int m + 1) * Weight (?ps ! b) \<le> T * Weight (?ps ! b)"
        using mT wpos by (intro mult_right_mono) simp_all
      moreover have "(int m + 1) * Weight (?ps ! b) = int m * Weight (?ps ! b) + Weight (?ps ! b)"
        by (simp add: algebra_simps)
      ultimately show False using upos' by linarith
    qed
    then show ?thesis using True by simp
  next
    case False
    then show ?thesis using cw i by simp
  qed
  have sub2: "set ?rs \<subseteq> Inr ` {..<?n}" using sub b by auto
  have len2: "length (backends ?s2) = ?n" using len by simp
  have lr2: "length ?rs = Suc m" using lr by simp
  show ?case
    using c2 lr2 sub2 len2 rel2 lo2 cw2 by blast
qed

text \<open>
  After \<open>T\<close> calls the counts are the weights and the pool is in its initial state
  again, so the periods repeat.
\<close>

lemma one_period:
  fixes s0 :: SRR and T :: int
  assumes H: "\<forall>i<length (backends s0). Healthy (backends s0 ! i)"
    and W: "\<forall>i<length (backends s0). 0 < Weight (backends s0 ! i)"
    and Z: "\<forall>i<length (backends s0). CurrentWeight (backends s0 ! i) = 0"
    and T: "T = (\<Sum>i<length (backends s0). Weight (backends s0 ! i))"
    and bound: "int (length (backends s0)) * T < 2 ^ 63"
  shows "\<exists>rs. calls (nat T) s0 = (rs, s0) \<and>
      (\<forall>i<length (backends s0). int (count_list rs (Inr i)) = Weight (backends s0 ! i))"
proof -
  let ?ps = "backends s0"
  let ?n = "length ?ps"
  have T0: "0 \<le> T" unfolding T using W by (intro sum_nonneg) (auto intro: less_imp_le)
  then have "int (nat T) \<le> T" by simp
  from period_invariant[OF H W Z T bound this] obtain rs s1 where
    c: "calls (nat T) s0 = (rs, s1)" and lr: "length rs = nat T" and
    sub: "set rs \<subseteq> Inr ` {..<?n}" and
    len: "length (backends s1) = ?n" and
    rel: "\<forall>i<?n. backends s1 ! i = (?ps ! i)\<lparr>CurrentWeight :=
          int (nat T) * Weight (?ps ! i) - T * int (count_list rs (Inr i))\<rparr>" and
    cw: "\<forall>i<?n. int (count_list rs (Inr i)) \<le> Weight (?ps ! i)"
    by blast
  let ?c = "\<lambda>i. int (count_list rs (Inr i))"
  have "(\<Sum>i<?n. ?c i) = int (length rs)"
    using sum_count_Inr[OF sub] by (simp flip: of_nat_sum)
  then have seq: "(\<Sum>i<?n. ?c i) = (\<Sum>i<?n. Weight (?ps ! i))"
    using lr T0 T by simp
  have ceq: "?c i = Weight (?ps ! i)" if i: "i < ?n" for i
  proof (rule sum_mono_inv[OF seq])
    show "?c j \<le> Weight (?ps ! j)" if "j \<in> {..<?n}" for j using cw that by simp
    show "i \<in> {..<?n}" using i by simp
    show "finite {..<?n}" by simp
  qed
  have "backends s1 ! i = ?ps ! i" if i: "i < ?n" for i
  proof -
    have "backends s1 ! i = (?ps ! i)\<lparr>CurrentWeight :=
          int (nat T) * Weight (?ps ! i) - T * ?c i\<rparr>"
      by (rule rel[rule_format, OF i])
    also have "int (nat T) * Weight (?ps ! i) - T * ?c i = 0"
      using T0 by (simp add: ceq[OF i])
    finally show ?thesis using Z[rule_format, OF i] by simp
  qed
  then have "backends s1 = ?ps" using len by (intro nth_equalityI) simp_all
  then have "s1 = s0" by simp
  with c ceq show ?thesis by blast
qed

lemma many_periods:
  fixes s0 :: SRR and T :: int
  assumes H: "\<forall>i<length (backends s0). Healthy (backends s0 ! i)"
    and W: "\<forall>i<length (backends s0). 0 < Weight (backends s0 ! i)"
    and Z: "\<forall>i<length (backends s0). CurrentWeight (backends s0 ! i) = 0"
    and T: "T = (\<Sum>i<length (backends s0). Weight (backends s0 ! i))"
    and bound: "int (length (backends s0)) * T < 2 ^ 63"
  shows "\<exists>rs. calls (k * nat T) s0 = (rs, s0) \<and>
      (\<forall>i<length (backends s0). count_list rs (Inr i) = k * nat (Weight (backends s0 ! i)))"
proof (induction k)
  case 0
  show ?case by simp
next
  case (Suc k)
  then obtain rs where rs: "calls (k * nat T) s0 = (rs, s0)"
    and crs: "\<forall>i<length (backends s0). count_list rs (Inr i) = k * nat (Weight (backends s0 ! i))"
    by blast
  from one_period[OF H W Z T bound] obtain r1 where r1: "calls (nat T) s0 = (r1, s0)"
    and cr1: "\<forall>i<length (backends s0). int (count_list r1 (Inr i)) = Weight (backends s0 ! i)"
    by blast
  have "calls (Suc k * nat T) s0 = calls (nat T + k * nat T) s0" by simp
  also have "\<dots> = (r1 @ rs, s0)" unfolding calls_add by (simp add: r1 rs)
  finally have c: "calls (Suc k * nat T) s0 = (r1 @ rs, s0)" .
  have "count_list (r1 @ rs) (Inr i) = Suc k * nat (Weight (backends s0 ! i))"
    if i: "i < length (backends s0)" for i
  proof -
    have "count_list r1 (Inr i) = nat (Weight (backends s0 ! i))"
      using cr1[rule_format, OF i] by linarith
    then show ?thesis using crs[rule_format, OF i] by simp
  qed
  with c show ?case by blast
qed

text \<open>A pool whose healthy weights sum to 0 in 64 bits only ever returns the error.\<close>

lemma healthy_total_bump: "healthy_total (map bump bs) = healthy_total bs"
  by (induction bs) (simp_all add: healthy_total_def bump_def IsHealthy_def)

lemma NextBackend_error_state:
  assumes "wrap64 (healthy_total (backends s)) = 0"
  shows "NextBackend s = (Inl ErrNoHealthyBackends, if backends s = [] then s else s\<lparr>backends := map bump (backends s)\<rparr>)"
  using assms by (simp add: NextBackend_def accumulate_eq)

lemma calls_all_errors:
  "wrap64 (healthy_total (backends s)) = 0 \<Longrightarrow> count_list (fst (calls n s)) (Inr i) = 0"
proof (induction n arbitrary: s)
  case 0
  show ?case by simp
next
  case (Suc n)
  let ?s1 = "if backends s = [] then s else s\<lparr>backends := map bump (backends s)\<rparr>"
  have nb: "NextBackend s = (Inl ErrNoHealthyBackends, ?s1)"
    by (rule NextBackend_error_state[OF Suc.prems])
  have "healthy_total (backends ?s1) = healthy_total (backends s)"
    by (simp add: healthy_total_bump)
  then have "wrap64 (healthy_total (backends ?s1)) = 0"
    using Suc.prems by (simp only:)
  from Suc.IH[OF this] show ?case by (simp add: nb split_beta)
qed

section \<open>The balancer: fairness over whole periods\<close>

text \<open>
  Claim C1 (fairness of smooth weighted round robin).  In a pool whose backends all
  have a positive weight, are healthy and start with \<open>CurrentWeight = 0\<close>, after
  \<open>k\<close> times the sum of the weights consecutive calls of \<open>NextBackend\<close> the
  backend at position \<open>i\<close> has been returned exactly \<open>k\<close> times its weight
  many times.  The statement needs the 64-bit additions not to overflow: the number
  of backends times the sum of the weights is below \<open>2^63\<close>.
\<close>

theorem SWRR_fairness:
  assumes "\<forall>b\<in>set (backends s). 0 < Weight b \<and> Healthy b \<and> CurrentWeight b = 0"
    and "int (length (backends s)) * sum_list (map Weight (backends s)) < 2 ^ 63"
    and "i < length (backends s)"
  shows "count_list (fst (calls (k * nat (sum_list (map Weight (backends s)))) s)) (Inr i) =
           k * nat (Weight (backends s ! i))"
proof -
  let ?T = "\<Sum>i<length (backends s). Weight (backends s ! i)"
  have H: "\<forall>i<length (backends s). Healthy (backends s ! i)"
    and W: "\<forall>i<length (backends s). 0 < Weight (backends s ! i)"
    and Z: "\<forall>i<length (backends s). CurrentWeight (backends s ! i) = 0"
    using assms(1) by simp_all
  have T: "sum_list (map Weight (backends s)) = ?T" by (rule sum_list_map_nth)
  have bound: "int (length (backends s)) * ?T < 2 ^ 63" using assms(2) T by simp
  from many_periods[OF H W Z refl bound, of k] obtain rs where
    "calls (k * nat ?T) s = (rs, s)"
    "\<forall>i<length (backends s). count_list rs (Inr i) = k * nat (Weight (backends s ! i))"
    by blast
  then show ?thesis using assms(3) T by simp
qed

text \<open>
  The scenario of the spec: weights A:1, B:2, C:3, and 60 calls return A 10 times,
  B 20 times and C 30 times.
\<close>

theorem SWRR_fairness_witness:
  "count_list (fst (calls 60 \<lparr>backends = [NewBackend ''A'' 1, NewBackend ''B'' 2, NewBackend ''C'' 3]\<rparr>)) (Inr 0) = 10 \<and>
   count_list (fst (calls 60 \<lparr>backends = [NewBackend ''A'' 1, NewBackend ''B'' 2, NewBackend ''C'' 3]\<rparr>)) (Inr 1) = 20 \<and>
   count_list (fst (calls 60 \<lparr>backends = [NewBackend ''A'' 1, NewBackend ''B'' 2, NewBackend ''C'' 3]\<rparr>)) (Inr 2) = 30"
  using SWRR_fairness[of "\<lparr>backends = [NewBackend ''A'' 1, NewBackend ''B'' 2, NewBackend ''C'' 3]\<rparr>" 0 10]
    SWRR_fairness[of "\<lparr>backends = [NewBackend ''A'' 1, NewBackend ''B'' 2, NewBackend ''C'' 3]\<rparr>" 1 10]
    SWRR_fairness[of "\<lparr>backends = [NewBackend ''A'' 1, NewBackend ''B'' 2, NewBackend ''C'' 3]\<rparr>" 2 10]
  by (simp add: NewBackend_def)

text \<open>
  Without the bound the statement fails: four healthy backends of weight \<open>2^62\<close>
  have the total weight \<open>2^64\<close>, which the 64-bit sum wraps to 0, so every call
  returns \<open>ErrNoHealthyBackends\<close> and no backend is ever selected.
\<close>

theorem SWRR_fairness_counterexample:
  "list_all (\<lambda>b. 0 < Weight b \<and> Healthy b \<and> CurrentWeight b = 0)
     [NewBackend ''A'' (2 ^ 62), NewBackend ''B'' (2 ^ 62), NewBackend ''C'' (2 ^ 62), NewBackend ''D'' (2 ^ 62)] \<and>
   count_list (fst (calls (1 * nat (sum_list (map Weight
       [NewBackend ''A'' (2 ^ 62), NewBackend ''B'' (2 ^ 62), NewBackend ''C'' (2 ^ 62), NewBackend ''D'' (2 ^ 62)])))
     \<lparr>backends = [NewBackend ''A'' (2 ^ 62), NewBackend ''B'' (2 ^ 62), NewBackend ''C'' (2 ^ 62), NewBackend ''D'' (2 ^ 62)]\<rparr>))
     (Inr 0) \<noteq>
   1 * nat (Weight ([NewBackend ''A'' (2 ^ 62), NewBackend ''B'' (2 ^ 62), NewBackend ''C'' (2 ^ 62), NewBackend ''D'' (2 ^ 62)] ! 0))"
proof -
  let ?bs = "[NewBackend ''A'' (2 ^ 62), NewBackend ''B'' (2 ^ 62), NewBackend ''C'' (2 ^ 62), NewBackend ''D'' (2 ^ 62)]"
  have "wrap64 (healthy_total (backends \<lparr>backends = ?bs\<rparr>)) = 0"
    by (simp add: healthy_total_def NewBackend_def IsHealthy_def wrap64_def)
  then have "count_list (fst (calls n \<lparr>backends = ?bs\<rparr>)) (Inr 0) = 0" for n
    by (rule calls_all_errors)
  then show ?thesis by (simp add: NewBackend_def)
qed

section \<open>The balancer: liveness and the error value\<close>

lemma healthy_total_exists:
  assumes "wrap64 (healthy_total bs) \<noteq> 0"
  shows "\<exists>b\<in>set bs. Healthy b"
proof (rule ccontr)
  assume "\<not> (\<exists>b\<in>set bs. Healthy b)"
  then have "healthy_total bs = 0" by (intro healthy_total_none) blast
  with assms show False by (simp add: wrap64_zero)
qed

lemma NextBackend_returns_healthy:
  assumes "wrap64 (healthy_total (backends s)) \<noteq> 0"
  shows "\<exists>i<length (backends s). fst (NextBackend s) = Inr i \<and> Healthy (backends s ! i) \<and>
           Healthy (backends (snd (NextBackend s)) ! i)"
proof -
  from NextBackend_pick[OF assms] obtain i where
    i: "i < length (backends s)" "Healthy (backends s ! i)" and
    nb: "NextBackend s = (Inr i, s\<lparr>backends := (map bump (backends s))
        [i := (bump (backends s ! i))\<lparr>CurrentWeight :=
            wrap64 (CurrentWeight (bump (backends s ! i)) - wrap64 (healthy_total (backends s)))\<rparr>]\<rparr>)"
    by blast
  have "Healthy (backends (snd (NextBackend s)) ! i)" using i by (simp add: nb)
  with i nb show ?thesis by auto
qed

text \<open>
  Claim C2 (liveness and failure value).  When the pool has a healthy backend and
  the total weight of the healthy backends, as the 64-bit sum computes it, is not 0,
  \<open>NextBackend\<close> returns a healthy backend.  When no backend is healthy (the empty
  pool included) or that total is 0, it returns the value \<open>ErrNoHealthyBackends\<close>,
  and the dispatcher then answers 503.
\<close>

theorem NextBackend_liveness:
  "((\<exists>b\<in>set (backends s). Healthy b) \<and> wrap64 (healthy_total (backends s)) \<noteq> 0 \<longrightarrow>
      (\<exists>i<length (backends s). fst (NextBackend s) = Inr i \<and> Healthy (backends s ! i) \<and>
          Healthy (backends (snd (NextBackend s)) ! i))) \<and>
   ((\<forall>b\<in>set (backends s). \<not> Healthy b) \<or> wrap64 (healthy_total (backends s)) = 0 \<longrightarrow>
      fst (NextBackend s) = Inl ErrNoHealthyBackends) \<and>
   (fst (NextBackend s) = Inl ErrNoHealthyBackends \<longrightarrow>
      fst (ServeHTTP s forward) = StatusServiceUnavailable)"
proof (intro conjI impI)
  assume "(\<exists>b\<in>set (backends s). Healthy b) \<and> wrap64 (healthy_total (backends s)) \<noteq> 0"
  then show "\<exists>i<length (backends s). fst (NextBackend s) = Inr i \<and> Healthy (backends s ! i) \<and>
          Healthy (backends (snd (NextBackend s)) ! i)"
    using NextBackend_returns_healthy by blast
next
  assume "(\<forall>b\<in>set (backends s). \<not> Healthy b) \<or> wrap64 (healthy_total (backends s)) = 0"
  then have "wrap64 (healthy_total (backends s)) = 0"
    using healthy_total_none[of "backends s"] by (auto simp: wrap64_zero)
  then show "fst (NextBackend s) = Inl ErrNoHealthyBackends" by (rule NextBackend_error)
next
  assume "fst (NextBackend s) = Inl ErrNoHealthyBackends"
  then show "fst (ServeHTTP s forward) = StatusServiceUnavailable"
    by (cases "NextBackend s") (simp add: ServeHTTP_def)
qed

theorem NextBackend_liveness_witness:
  "(\<exists>i<3. fst (NextBackend \<lparr>backends = [NewBackend ''A'' 1, NewBackend ''B'' 2, NewBackend ''C'' 3]\<rparr>) = Inr i \<and>
       Healthy ([NewBackend ''A'' 1, NewBackend ''B'' 2, NewBackend ''C'' 3] ! i)) \<and>
   fst (NextBackend \<lparr>backends = [Backend_SetHealthy (NewBackend ''A'' 1) False]\<rparr>) = Inl ErrNoHealthyBackends \<and>
   fst (NextBackend NewSRR) = Inl ErrNoHealthyBackends \<and>
   fst (ServeHTTP NewSRR (\<lambda>b. 200)) = 503"
proof -
  have 1: "\<exists>i<3. fst (NextBackend \<lparr>backends = [NewBackend ''A'' 1, NewBackend ''B'' 2, NewBackend ''C'' 3]\<rparr>) = Inr i \<and>
       Healthy ([NewBackend ''A'' 1, NewBackend ''B'' 2, NewBackend ''C'' 3] ! i)"
    using NextBackend_liveness[of "\<lparr>backends = [NewBackend ''A'' 1, NewBackend ''B'' 2, NewBackend ''C'' 3]\<rparr>" "\<lambda>b. 200"]
    by (simp add: NewBackend_def healthy_total_def IsHealthy_def wrap64_def eval_nat_numeral) blast
  have 2: "fst (NextBackend \<lparr>backends = [Backend_SetHealthy (NewBackend ''A'' 1) False]\<rparr>) = Inl ErrNoHealthyBackends"
    using NextBackend_liveness[of "\<lparr>backends = [Backend_SetHealthy (NewBackend ''A'' 1) False]\<rparr>" "\<lambda>b. 200"]
    by (simp add: NewBackend_def Backend_SetHealthy_def)
  have 3: "fst (NextBackend NewSRR) = Inl ErrNoHealthyBackends \<and> fst (ServeHTTP NewSRR (\<lambda>b. 200)) = 503"
    using NextBackend_liveness[of NewSRR "\<lambda>b. 200"]
    by (simp add: NewSRR_def StatusServiceUnavailable_def)
  from 1 2 3 show ?thesis by simp
qed

text \<open>
  As stated for every pool with a healthy backend the claim fails: a healthy backend
  of weight 0, and four healthy backends of weight \<open>2^62\<close> (total \<open>2^64\<close>, which
  wraps to 0), both make \<open>NextBackend\<close> return the error.
\<close>

theorem NextBackend_liveness_counterexample:
  "Healthy ([NewBackend ''A'' 0] ! 0) \<and>
   fst (NextBackend \<lparr>backends = [NewBackend ''A'' 0]\<rparr>) = Inl ErrNoHealthyBackends \<and>
   list_all (\<lambda>b. Healthy b \<and> 0 < Weight b)
     [NewBackend ''A'' (2 ^ 62), NewBackend ''B'' (2 ^ 62), NewBackend ''C'' (2 ^ 62), NewBackend ''D'' (2 ^ 62)] \<and>
   fst (NextBackend \<lparr>backends =
     [NewBackend ''A'' (2 ^ 62), NewBackend ''B'' (2 ^ 62), NewBackend ''C'' (2 ^ 62), NewBackend ''D'' (2 ^ 62)]\<rparr>)
     = Inl ErrNoHealthyBackends"
  by (simp add: NextBackend_def NewBackend_def IsHealthy_def wrap64_def)

section \<open>The balancer: what a change of health leaves alone\<close>

lemma SetHealthy_loop_frame:
  "map URL (fst (SetHealthy_loop bs url h)) = map URL bs \<and>
   map Weight (fst (SetHealthy_loop bs url h)) = map Weight bs \<and>
   map CurrentWeight (fst (SetHealthy_loop bs url h)) = map CurrentWeight bs"
  by (induction bs) (simp_all add: Backend_SetHealthy_def split_beta)

lemma bump_unhealthy: "\<not> Healthy b \<Longrightarrow> bump b = b"
  by (simp add: bump_def IsHealthy_def)

lemma NextBackend_frame:
  "length (backends (snd (NextBackend s))) = length (backends s) \<and>
   (\<forall>j<length (backends s). \<not> Healthy (backends s ! j) \<longrightarrow>
      backends (snd (NextBackend s)) ! j = backends s ! j)"
proof (cases "wrap64 (healthy_total (backends s)) = 0")
  case True
  show ?thesis
    unfolding NextBackend_error_state[OF True] by (simp add: bump_unhealthy)
next
  case False
  from NextBackend_pick[OF False] obtain i where
    i: "i < length (backends s)" "Healthy (backends s ! i)" and
    nb: "NextBackend s = (Inr i, s\<lparr>backends := (map bump (backends s))
        [i := (bump (backends s ! i))\<lparr>CurrentWeight :=
            wrap64 (CurrentWeight (bump (backends s ! i)) - wrap64 (healthy_total (backends s)))\<rparr>]\<rparr>)"
    by blast
  have "backends (snd (NextBackend s)) ! j = backends s ! j"
    if j: "j < length (backends s)" "\<not> Healthy (backends s ! j)" for j
  proof -
    have "j \<noteq> i" using i j by auto
    then show ?thesis using j by (simp add: nb bump_unhealthy)
  qed
  then show ?thesis by (simp add: nb)
qed

lemma calls_frame:
  "length (backends (snd (calls n s))) = length (backends s) \<and>
   (\<forall>j<length (backends s). \<not> Healthy (backends s ! j) \<longrightarrow>
      backends (snd (calls n s)) ! j = backends s ! j)"
proof (induction n arbitrary: s)
  case 0
  show ?case by simp
next
  case (Suc n)
  let ?s1 = "snd (NextBackend s)"
  have c: "snd (calls (Suc n) s) = snd (calls n ?s1)" by (simp add: split_beta)
  have len: "length (backends ?s1) = length (backends s)"
    using NextBackend_frame[of s] by simp
  have "backends (snd (calls n ?s1)) ! j = backends s ! j"
    if j: "j < length (backends s)" "\<not> Healthy (backends s ! j)" for j
  proof -
    have e: "backends ?s1 ! j = backends s ! j" using NextBackend_frame[of s] j by simp
    then have "\<not> Healthy (backends ?s1 ! j)" using j by simp
    then have "backends (snd (calls n ?s1)) ! j = backends ?s1 ! j"
      using Suc.IH[of ?s1] j len by simp
    with e show ?thesis by simp
  qed
  then show ?case unfolding c using Suc.IH[of ?s1] len by simp
qed

text \<open>
  Claim C6 (frame condition on liveness transitions).  \<open>SetHealthy\<close> on a backend
  changes only the healthy flag; \<open>SetHealthy\<close> by URL on the balancer leaves the
  URL, the weight and the current weight of every backend of the pool as they are;
  and a backend that is unhealthy keeps its record, the current weight included,
  over any number of \<open>NextBackend\<close> calls.
\<close>

theorem SetHealthy_frame:
  "Backend_SetHealthy b h = b\<lparr>Healthy := h\<rparr> \<and>
   CurrentWeight (Backend_SetHealthy b h) = CurrentWeight b \<and>
   map URL (backends (fst (SRR_SetHealthy s url h))) = map URL (backends s) \<and>
   map Weight (backends (fst (SRR_SetHealthy s url h))) = map Weight (backends s) \<and>
   map CurrentWeight (backends (fst (SRR_SetHealthy s url h))) = map CurrentWeight (backends s) \<and>
   (\<forall>j<length (backends s). \<not> Healthy (backends s ! j) \<longrightarrow>
      backends (snd (calls n s)) ! j = backends s ! j)"
  using SetHealthy_loop_frame[of "backends s" url h] calls_frame[of n s]
  by (simp add: Backend_SetHealthy_def SRR_SetHealthy_def split_beta)

theorem SetHealthy_frame_witness:
  "map CurrentWeight (backends (fst (SRR_SetHealthy
      \<lparr>backends = [\<lparr>URL = ''A'', Weight = 1, CurrentWeight = -2, Healthy = True\<rparr>,
                   \<lparr>URL = ''B'', Weight = 2, CurrentWeight = 2, Healthy = True\<rparr>]\<rparr> ''B'' False))) = [-2, 2] \<and>
   backends (snd (calls 7
      \<lparr>backends = [\<lparr>URL = ''A'', Weight = 1, CurrentWeight = -2, Healthy = True\<rparr>,
                   \<lparr>URL = ''B'', Weight = 2, CurrentWeight = 2, Healthy = False\<rparr>]\<rparr>)) ! 1 =
      \<lparr>URL = ''B'', Weight = 2, CurrentWeight = 2, Healthy = False\<rparr>"
  using SetHealthy_frame[of "NewBackend ''A'' 1" False
      "\<lparr>backends = [\<lparr>URL = ''A'', Weight = 1, CurrentWeight = -2, Healthy = True\<rparr>,
                   \<lparr>URL = ''B'', Weight = 2, CurrentWeight = 2, Healthy = True\<rparr>]\<rparr>" "''B''" 7]
    SetHealthy_frame[of "NewBackend ''A'' 1" False
      "\<lparr>backends = [\<lparr>URL = ''A'', Weight = 1, CurrentWeight = -2, Healthy = True\<rparr>,
                   \<lparr>URL = ''B'', Weight = 2, CurrentWeight = 2, Healthy = False\<rparr>]\<rparr>" "''B''" 7]
  by simp

section \<open>The balancer: the sum of the current weights\<close>

lemma sum_bump:
  "sum_list (map CurrentWeight (map bump bs)) mod 2 ^ 64 =
     (sum_list (map CurrentWeight bs) + healthy_total bs) mod 2 ^ 64"
proof (induction bs)
  case Nil
  show ?case by (simp add: healthy_total_def)
next
  case (Cons b bs)
  let ?r = "sum_list (map CurrentWeight (map bump bs))"
  show ?case
  proof (cases "IsHealthy b")
    case True
    have "sum_list (map CurrentWeight (map bump (b # bs))) mod 2 ^ 64 =
        (wrap64 (CurrentWeight b + Weight b) + ?r) mod 2 ^ 64"
      using True by (simp add: bump_def)
    also have "\<dots> = (wrap64 (CurrentWeight b + Weight b) mod 2 ^ 64 + ?r mod 2 ^ 64) mod 2 ^ 64"
      by (simp add: mod_add_eq)
    also have "\<dots> = ((CurrentWeight b + Weight b) mod 2 ^ 64 +
        (sum_list (map CurrentWeight bs) + healthy_total bs) mod 2 ^ 64) mod 2 ^ 64"
      by (simp only: wrap64_cong Cons.IH)
    also have "\<dots> = ((CurrentWeight b + Weight b) +
        (sum_list (map CurrentWeight bs) + healthy_total bs)) mod 2 ^ 64"
      by (simp add: mod_add_eq)
    also have "\<dots> = (sum_list (map CurrentWeight (b # bs)) + healthy_total (b # bs)) mod 2 ^ 64"
      using True by (simp add: healthy_total_def algebra_simps)
    finally show ?thesis .
  next
    case False
    have "sum_list (map CurrentWeight (map bump (b # bs))) mod 2 ^ 64 =
        (CurrentWeight b + ?r) mod 2 ^ 64"
      using False by (simp add: bump_def)
    also have "\<dots> = (CurrentWeight b + ?r mod 2 ^ 64) mod 2 ^ 64"
      by (simp add: mod_add_right_eq)
    also have "\<dots> = (CurrentWeight b +
        (sum_list (map CurrentWeight bs) + healthy_total bs) mod 2 ^ 64) mod 2 ^ 64"
      by (simp only: Cons.IH)
    also have "\<dots> = (CurrentWeight b + (sum_list (map CurrentWeight bs) + healthy_total bs)) mod 2 ^ 64"
      by (simp add: mod_add_right_eq)
    also have "\<dots> = (sum_list (map CurrentWeight (b # bs)) + healthy_total (b # bs)) mod 2 ^ 64"
      using False by (simp add: healthy_total_def algebra_simps)
    finally show ?thesis .
  qed
qed

lemma sum_list_map_update:
  fixes f :: "'a \<Rightarrow> int"
  shows "i < length xs \<Longrightarrow>
    sum_list (map f (xs[i := x])) = sum_list (map f xs) - f (xs ! i) + f x"
proof (induction xs arbitrary: i)
  case Nil
  then show ?case by simp
next
  case (Cons a xs)
  then show ?case by (cases i) simp_all
qed

lemma NextBackend_cw_sum:
  "cw_sum (snd (NextBackend s)) mod 2 ^ 64 = cw_sum s mod 2 ^ 64"
proof (cases "wrap64 (healthy_total (backends s)) = 0")
  case True
  then have "healthy_total (backends s) mod 2 ^ 64 = 0"
    using wrap64_cong[of "healthy_total (backends s)"] by simp
  then have "(cw_sum s + healthy_total (backends s)) mod 2 ^ 64 = cw_sum s mod 2 ^ 64"
    by (metis add.right_neutral mod_add_right_eq)
  then show ?thesis
    unfolding NextBackend_error_state[OF True]
    using sum_bump[of "backends s"] by (simp add: cw_sum_def)
next
  case False
  let ?bs = "backends s"
  let ?t = "wrap64 (healthy_total ?bs)"
  from NextBackend_pick[OF False] obtain i where
    i: "i < length ?bs" and
    nb: "NextBackend s = (Inr i, s\<lparr>backends := (map bump ?bs)
        [i := (bump (?bs ! i))\<lparr>CurrentWeight :=
            wrap64 (CurrentWeight (bump (?bs ! i)) - ?t)\<rparr>]\<rparr>)"
    by blast
  let ?c = "CurrentWeight (bump (?bs ! i))"
  let ?S = "sum_list (map CurrentWeight (map bump ?bs))"
  have "cw_sum (snd (NextBackend s)) = ?S - ?c + wrap64 (?c - ?t)"
    using i by (simp add: nb cw_sum_def sum_list_map_update)
  then have "cw_sum (snd (NextBackend s)) mod 2 ^ 64 = ((?S - ?c) + wrap64 (?c - ?t)) mod 2 ^ 64"
    by simp
  also have "\<dots> = ((?S - ?c) + wrap64 (?c - ?t) mod 2 ^ 64) mod 2 ^ 64"
    by (simp add: mod_add_right_eq)
  also have "\<dots> = ((?S - ?c) + (?c - ?t) mod 2 ^ 64) mod 2 ^ 64"
    by (simp only: wrap64_cong)
  also have "\<dots> = ((?S - ?c) + (?c - ?t)) mod 2 ^ 64"
    by (simp add: mod_add_right_eq)
  also have "\<dots> = (?S - ?t) mod 2 ^ 64" by (simp add: algebra_simps)
  also have "\<dots> = (?S mod 2 ^ 64 - ?t mod 2 ^ 64) mod 2 ^ 64"
    by (simp add: mod_diff_eq)
  also have "\<dots> = ((cw_sum s + healthy_total ?bs) mod 2 ^ 64 - healthy_total ?bs mod 2 ^ 64) mod 2 ^ 64"
    by (simp only: sum_bump wrap64_cong cw_sum_def)
  also have "\<dots> = ((cw_sum s + healthy_total ?bs) - healthy_total ?bs) mod 2 ^ 64"
    by (simp add: mod_diff_eq)
  finally show ?thesis by simp
qed

lemma apply_op_cw_sum:
  "cw_sum (apply_op s x) mod 2 ^ 64 = cw_sum s mod 2 ^ 64"
proof (cases x)
  case (OpAddBackend url weight)
  then show ?thesis by (simp add: cw_sum_def AddBackend_def NewBackend_def)
next
  case (OpSetHealthy url healthy)
  then show ?thesis
    using SetHealthy_loop_frame[of "backends s" url healthy]
    by (simp add: cw_sum_def SRR_SetHealthy_def split_beta)
next
  case (OpBackendSetHealthy i healthy)
  then show ?thesis
    by (simp add: cw_sum_def sum_list_map_update Backend_SetHealthy_def)
next
  case OpNextBackend
  then show ?thesis using NextBackend_cw_sum[of s] by simp
qed

lemma foldl_apply_op_cw_sum:
  "cw_sum (foldl apply_op s ops) mod 2 ^ 64 = cw_sum s mod 2 ^ 64"
proof (induction ops arbitrary: s)
  case Nil
  show ?case by simp
next
  case (Cons a ops)
  have "cw_sum (foldl apply_op (apply_op s a) ops) mod 2 ^ 64 = cw_sum (apply_op s a) mod 2 ^ 64"
    by (rule Cons.IH)
  also have "\<dots> = cw_sum s mod 2 ^ 64" by (rule apply_op_cw_sum)
  finally show ?case by simp
qed

text \<open>
  Claim C9 (sum of the current weights).  Starting from the empty balancer, after
  any sequence of operations that add a new backend, switch the health of a backend
  or select the next backend, the sum of \<open>CurrentWeight\<close> over the pool is 0 in
  the 64-bit arithmetic of the program: the exact sum is a multiple of \<open>2^64\<close>.
\<close>

theorem cw_sum_invariant:
  "wrap64 (cw_sum (run_ops ops)) = 0 \<and> cw_sum (run_ops ops) mod 2 ^ 64 = 0"
proof -
  have m: "cw_sum (run_ops ops) mod 2 ^ 64 = 0"
    using foldl_apply_op_cw_sum[of NewSRR ops] by (simp add: run_ops_def cw_sum_def NewSRR_def)
  then have "cw_sum (run_ops ops) mod 2 ^ 64 = 0 mod 2 ^ 64" by simp
  then have "wrap64 (cw_sum (run_ops ops)) = wrap64 0" by (simp only: wrap64_eq_iff)
  with m show ?thesis by (simp add: wrap64_zero)
qed

text \<open>
  The exact sum need not be 0: with two backends of weight \<open>2^62\<close> the second call
  overflows and leaves both current weights at \<open>-2^63\<close>.
\<close>

theorem cw_sum_invariant_counterexample:
  "cw_sum (run_ops [OpAddBackend ''A'' (2 ^ 62), OpAddBackend ''B'' (2 ^ 62),
                    OpNextBackend, OpNextBackend]) = - (2 ^ 64) \<and>
   cw_sum (run_ops [OpAddBackend ''A'' (2 ^ 62), OpAddBackend ''B'' (2 ^ 62),
                    OpNextBackend, OpNextBackend]) \<noteq> 0"
  by (simp add: run_ops_def cw_sum_def NewSRR_def AddBackend_def NewBackend_def
      NextBackend_def IsHealthy_def wrap64_def)

section \<open>The cache\<close>

text \<open>
  Claim C4 (TTL boundary).  \<open>Get\<close> returns the stored body and headers exactly when
  the key has an entry and the current time is not later than its expiry instant;
  an entry written by \<open>Set\<close> at \<open>t0\<close> expires at \<open>t0 + ttl\<close>, so it is returned
  while \<open>now \<le> t0 + ttl\<close> and is a miss from \<open>now > t0 + ttl\<close> on.
\<close>

theorem Get_ttl_boundary:
  "Get (Set c key val hdr t0) key now = (if now \<le> t0 + ttl c then Some (val, hdr) else None) \<and>
   Get c key now =
     (case map_of (entries c) key of
        None \<Rightarrow> None
      | Some e \<Rightarrow> if now \<le> ExpiresAt e then Some (Value e, Header e) else None) \<and>
   ExpiresAt (NewEntry key val hdr d t0) = CreatedAt (NewEntry key val hdr d t0) + d"
  by (auto simp: Get_def Set_def NewEntry_def IsExpired_def update_conv' split: option.splits)

text \<open>
  At the expiry instant itself the entry is still returned: \<open>IsExpired\<close> is
  \<open>time.Now().After(ExpiresAt)\<close>, which is false at equality.
\<close>

theorem Get_ttl_boundary_counterexample:
  "Get (Set (NewCache 60000000000) ''GET:/x'' [104, 105] [(''Content-Type'', [''text/plain''])] 1000)
       ''GET:/x'' (1000 + 60000000000) =
     Some ([104, 105], [(''Content-Type'', [''text/plain''])])"
  by (simp add: Get_def Set_def NewCache_def NewEntry_def IsExpired_def)

lemma delete_filter: "AList.delete k m = filter (\<lambda>p. fst p \<noteq> k) m"
  by (induction m) auto

lemma CleanupExpired_loop_eq:
  "CleanupExpired_loop now xs m count =
     (filter (\<lambda>p. fst p \<notin> fst ` set (filter (\<lambda>p. IsExpired (snd p) now) xs)) m,
      count + length (filter (\<lambda>p. IsExpired (snd p) now) xs))"
proof (induction xs arbitrary: m count)
  case Nil
  show ?case by simp
next
  case (Cons x xs)
  obtain key entry where x: "x = (key, entry)" by (cases x)
  show ?case
  proof (cases "IsExpired entry now")
    case True
    have "filter (\<lambda>p. fst p \<notin> fst ` set (filter (\<lambda>p. IsExpired (snd p) now) xs))
            (filter (\<lambda>p. fst p \<noteq> key) m) =
          filter (\<lambda>p. fst p \<notin> fst ` set (filter (\<lambda>p. IsExpired (snd p) now) (x # xs))) m"
      unfolding filter_filter x using True by (intro filter_cong) auto
    then show ?thesis
      unfolding x using True by (simp add: Cons.IH IsExpired_def delete_filter)
  next
    case False
    then show ?thesis unfolding x by (simp add: Cons.IH IsExpired_def)
  qed
qed

lemma distinct_filter_keys:
  assumes "distinct (map fst xs)"
  shows "filter (\<lambda>p. fst p \<notin> fst ` set (filter P xs)) xs = filter (\<lambda>p. \<not> P p) xs"
proof (rule filter_cong[OF refl])
  fix p assume p: "p \<in> set xs"
  show "(fst p \<notin> fst ` set (filter P xs)) = (\<not> P p)"
  proof
    assume "fst p \<notin> fst ` set (filter P xs)"
    then show "\<not> P p" using p by force
  next
    assume np: "\<not> P p"
    show "fst p \<notin> fst ` set (filter P xs)"
    proof
      assume "fst p \<in> fst ` set (filter P xs)"
      then obtain q where q: "q \<in> set xs" "P q" "fst q = fst p" by auto
      from assms p q(1) q(3) have "q = p" by (metis eq_key_imp_eq_value prod.collapse)
      with q(2) np show False by simp
    qed
  qed
qed

text \<open>
  The keys of a Go map are distinct, and the operations of the cache keep the keys
  of the association list distinct.
\<close>

lemma cache_keys_distinct:
  assumes "distinct (map fst (entries c))"
  shows "distinct (map fst (entries (Set c key val hdr now)))"
    and "distinct (map fst (entries (Delete c key)))"
    and "distinct (map fst (entries (fst (CleanupExpired c now))))"
  using assms
  by (simp_all add: Set_def Delete_def CleanupExpired_def CleanupExpired_loop_eq
      distinct_update distinct_delete distinct_map_filter)

text \<open>
  Claim C7 (postcondition of \<open>CleanupExpired\<close>).  One call removes every entry
  whose expiry instant has passed, leaves the other entries as they are, and
  returns the number of entries it removed; afterwards no entry of the cache is
  expired.
\<close>

theorem CleanupExpired_post:
  assumes "distinct (map fst (entries c))"
  shows "entries (fst (CleanupExpired c now)) = filter (\<lambda>p. \<not> IsExpired (snd p) now) (entries c) \<and>
    ttl (fst (CleanupExpired c now)) = ttl c \<and>
    snd (CleanupExpired c now) = length (filter (\<lambda>p. IsExpired (snd p) now) (entries c)) \<and>
    snd (CleanupExpired c now) + Cache_Size (fst (CleanupExpired c now)) = Cache_Size c \<and>
    (\<forall>p\<in>set (entries (fst (CleanupExpired c now))). \<not> IsExpired (snd p) now)"
proof -
  have l: "length (filter (\<lambda>p. IsExpired (snd p) now) (entries c)) +
      length (filter (\<lambda>p. \<not> IsExpired (snd p) now) (entries c)) = length (entries c)"
    by (rule sum_length_filter_compl)
  have e: "CleanupExpired c now =
      (c\<lparr>entries := filter (\<lambda>p. \<not> IsExpired (snd p) now) (entries c)\<rparr>,
       length (filter (\<lambda>p. IsExpired (snd p) now) (entries c)))"
    unfolding CleanupExpired_def CleanupExpired_loop_eq distinct_filter_keys[OF assms] by simp
  show ?thesis
    unfolding e using l by (simp add: Cache_Size_def)
qed

theorem CleanupExpired_post_witness:
  "CleanupExpired
     \<lparr>entries = [(''a'', NewEntry ''a'' [1] [] 60 0), (''b'', NewEntry ''b'' [2] [] 60 50),
                 (''c'', NewEntry ''c'' [3] [] 60 10)], ttl = 60\<rparr> 100 =
   (\<lparr>entries = [(''b'', NewEntry ''b'' [2] [] 60 50)], ttl = 60\<rparr>, 2)"
  using CleanupExpired_post[of
     "\<lparr>entries = [(''a'', NewEntry ''a'' [1] [] 60 0), (''b'', NewEntry ''b'' [2] [] 60 50),
                 (''c'', NewEntry ''c'' [3] [] 60 10)], ttl = 60\<rparr>" 100]
  by (simp add: prod_eq_iff NewEntry_def IsExpired_def)

section \<open>The rate limiter\<close>

lemma CleanupStale_loop_eq:
  "CleanupStale_loop now idle xs m count =
     (filter (\<lambda>p. fst p \<notin> fst ` set (filter (\<lambda>p. now - lastSeen (snd p) > idle) xs)) m,
      count + length (filter (\<lambda>p. now - lastSeen (snd p) > idle) xs))"
proof (induction xs arbitrary: m count)
  case Nil
  show ?case by simp
next
  case (Cons x xs)
  obtain ip cl where x: "x = (ip, cl)" by (cases x)
  show ?case
  proof (cases "now - lastSeen cl > idle")
    case True
    have "filter (\<lambda>p. fst p \<notin> fst ` set (filter (\<lambda>p. now - lastSeen (snd p) > idle) xs))
            (filter (\<lambda>p. fst p \<noteq> ip) m) =
          filter (\<lambda>p. fst p \<notin> fst ` set (filter (\<lambda>p. now - lastSeen (snd p) > idle) (x # xs))) m"
      unfolding filter_filter x using True by (intro filter_cong) auto
    then show ?thesis
      unfolding x using True by (simp add: Cons.IH delete_filter)
  next
    case False
    then show ?thesis unfolding x by (simp add: Cons.IH)
  qed
qed

text \<open>The operations of the limiter keep the keys distinct as well.\<close>

lemma limiter_keys_distinct:
  assumes "distinct (map fst (limiters r))"
  shows "distinct (map fst (limiters (snd (Allow r ip now))))"
    and "distinct (map fst (limiters (fst (CleanupStale r idle now))))"
  using assms
  by (simp_all add: Allow_def createNewLimiter_def bucket_Allow_def CleanupStale_def
      CleanupStale_loop_eq distinct_update distinct_map_filter split_beta Let_def
      split: option.splits)

text \<open>
  Claim C8 (idle-bucket reaping).  \<open>CleanupStale\<close> removes exactly the buckets with
  \<open>now - lastSeen > idleTimeout\<close>, leaves the others in place and returns the
  number removed; when every bucket is idle for longer than the timeout it returns
  the number of buckets and \<open>Size\<close> is 0 afterwards.
\<close>

theorem CleanupStale_post:
  assumes "distinct (map fst (limiters r))"
  shows "limiters (fst (CleanupStale r idle now)) =
      filter (\<lambda>p. \<not> now - lastSeen (snd p) > idle) (limiters r) \<and>
    snd (CleanupStale r idle now) =
      length (filter (\<lambda>p. now - lastSeen (snd p) > idle) (limiters r)) \<and>
    snd (CleanupStale r idle now) + Size (fst (CleanupStale r idle now)) = Size r \<and>
    ((\<forall>p\<in>set (limiters r). now - lastSeen (snd p) > idle) \<longrightarrow>
       snd (CleanupStale r idle now) = Size r \<and> Size (fst (CleanupStale r idle now)) = 0)"
proof -
  have l: "length (filter (\<lambda>p. now - lastSeen (snd p) > idle) (limiters r)) +
      length (filter (\<lambda>p. \<not> now - lastSeen (snd p) > idle) (limiters r)) = length (limiters r)"
    by (rule sum_length_filter_compl)
  have e: "CleanupStale r idle now =
      (r\<lparr>limiters := filter (\<lambda>p. \<not> now - lastSeen (snd p) > idle) (limiters r)\<rparr>,
       length (filter (\<lambda>p. now - lastSeen (snd p) > idle) (limiters r)))"
    unfolding CleanupStale_def CleanupStale_loop_eq
      distinct_filter_keys[OF assms, of "\<lambda>p. now - lastSeen (snd p) > idle"] by simp
  have "filter (\<lambda>p. \<not> now - lastSeen (snd p) > idle) (limiters r) = []"
    if "\<forall>p\<in>set (limiters r). now - lastSeen (snd p) > idle"
    using that by (simp add: filter_empty_conv)
  then show ?thesis
    unfolding e using l by (auto simp: Size_def)
qed

lemma five_clients_limiters:
  "map fst (limiters five_clients) = [''10.0.0.1'', ''10.0.0.2'', ''10.0.0.3'', ''10.0.0.4'', ''10.0.0.5''] \<and>
   map (\<lambda>p. lastSeen (snd p)) (limiters five_clients) = [0, 0, 0, 0, 0]"
  by (simp add: five_clients_def Allow_def createNewLimiter_def bucket_Allow_def rate_Allow_def
      rate_NewLimiter_def NewLimiter_def Let_def)

theorem CleanupStale_post_witness:
  "Size five_clients = 5 \<and>
   snd (CleanupStale five_clients 300000000000 300000000001) = 5 \<and>
   Size (fst (CleanupStale five_clients 300000000000 300000000001)) = 0"
proof -
  have d: "distinct (map fst (limiters five_clients))"
    using five_clients_limiters by simp
  have "lastSeen (snd p) \<in> set (map (\<lambda>p. lastSeen (snd p)) (limiters five_clients))"
    if "p \<in> set (limiters five_clients)" for p
    using that by simp
  then have a: "\<forall>p\<in>set (limiters five_clients). 300000000001 - lastSeen (snd p) > 300000000000"
    using five_clients_limiters by simp
  have "length (map fst (limiters five_clients)) = 5"
    using five_clients_limiters by simp
  then have s: "Size five_clients = 5" by (simp add: Size_def)
  from CleanupStale_post[OF d, of 300000000000 300000000001] a s show ?thesis by simp
qed

lemma length_update_new:
  "map_of al k = None \<Longrightarrow> length (AList.update k v al) = Suc (length al)"
  by (induction al) (auto split: if_splits)

lemma length_update_old:
  "map_of al k \<noteq> None \<Longrightarrow> length (AList.update k v al) = length al"
  by (induction al) (auto split: if_splits)

text \<open>
  Claim C10 (first request of a new client).  With \<open>burst \<ge> 1\<close>, the first
  \<open>Allow\<close> for an IP that has no bucket returns true and creates one bucket, for
  that IP; the buckets of the other clients stay as they are.
\<close>

theorem Allow_first_request:
  assumes "1 \<le> burst r" and "map_of (limiters r) ip = None"
  shows "fst (Allow r ip now) = True \<and>
    Size (snd (Allow r ip now)) = Size r + 1 \<and>
    map_of (limiters (snd (Allow r ip now))) ip =
      Some \<lparr>limiter = \<lparr>rate_limit = limit r, rate_burst = burst r,
                         tokens = of_int (burst r) - 1, last = Some now\<rparr>,
            lastSeen = now\<rparr> \<and>
    (\<forall>ip'. ip' \<noteq> ip \<longrightarrow> map_of (limiters (snd (Allow r ip now))) ip' = map_of (limiters r) ip')"
proof -
  let ?cl = "\<lparr>limiter = rate_NewLimiter (limit r) (burst r), lastSeen = now\<rparr>"
  let ?rl = "\<lparr>rate_limit = limit r, rate_burst = burst r,
                         tokens = of_int (burst r) - 1, last = Some now\<rparr>"
  have b: "(1::real) \<le> of_int (burst r)" using assms(1) by simp
  have ra: "rate_Allow (rate_NewLimiter (limit r) (burst r)) now = (True, ?rl)"
    using b by (simp add: rate_Allow_def rate_NewLimiter_def)
  have al: "Allow r ip now =
      (True, r\<lparr>limiters := AList.update ip \<lparr>limiter = ?rl, lastSeen = now\<rparr>
                 (AList.update ip ?cl (limiters r))\<rparr>)"
    using assms(2) by (simp add: Allow_def createNewLimiter_def bucket_Allow_def ra)
  have m1: "map_of (AList.update ip ?cl (limiters r)) ip \<noteq> None"
    by (simp add: update_conv')
  have len: "length (AList.update ip \<lparr>limiter = ?rl, lastSeen = now\<rparr>
                 (AList.update ip ?cl (limiters r))) = Suc (length (limiters r))"
    using length_update_old[OF m1] length_update_new[OF assms(2)] by simp
  show ?thesis
    unfolding al using len by (simp add: Size_def update_conv')
qed

theorem Allow_first_request_witness:
  "fst (Allow (NewLimiter 600 100) ''192.0.2.7'' 5) = True \<and>
   Size (snd (Allow (NewLimiter 600 100) ''192.0.2.7'' 5)) = 1"
  using Allow_first_request[of "NewLimiter 600 100" "''192.0.2.7''" 5]
  by (simp add: NewLimiter_def Size_def)

section \<open>The health checker\<close>

text \<open>
  Entered with \<open>c.mu\<close> free, the two handlers make the transitions of the state
  machine: a failure increments the counter and marks a healthy backend unhealthy
  once the counter has reached the threshold; a success resets a positive counter
  and marks an unhealthy backend healthy.
\<close>

lemma handleFailure_free:
  assumes "\<not> mu c"
  shows "handleFailure c b =
    Returns (c\<lparr>failures := (failures c)(URL b \<mapsto> wrap64 (failure_count c (URL b) + 1))\<rparr>,
             if failureThreshold c \<le> wrap64 (failure_count c (URL b) + 1) \<and> Healthy b
             then b\<lparr>Healthy := False\<rparr> else b)"
  using assms
  by (simp add: handleFailure_def Let_def failure_count_def IsHealthy_def Backend_SetHealthy_def)

lemma handleSuccess_free:
  assumes "\<not> mu c"
  shows "handleSuccess c b =
    Returns (if 0 < failure_count c (URL b) then c\<lparr>failures := (failures c)(URL b \<mapsto> 0)\<rparr> else c,
             if Healthy b then b else b\<lparr>Healthy := True\<rparr>)"
  using assms
  by (simp add: handleSuccess_def Let_def failure_count_def IsHealthy_def Backend_SetHealthy_def)

lemma handler_held:
  "mu c \<Longrightarrow> handleFailure c b = Blocked (c, b)"
  "mu c \<Longrightarrow> handleSuccess c b = Blocked (c, b)"
  by (simp_all add: handleFailure_def handleSuccess_def)

text \<open>
  A probe is made when the backend is healthy or the recovery interval has passed.
  When the probe ends in a network error, \<open>checkBackend\<close> counts the failure and
  returns; \<open>lastCheck\<close> is as before.
\<close>

lemma checkBackend_error_lastCheck:
  assumes "\<not> mu c"
    and "Healthy b \<or> recoveryInterval c \<le> Since now (lastCheck c (URL b))"
    and "result = NetworkError \<or> result = RequestError"
  shows "\<exists>c' b'. checkBackend c b now now' result = Returns (c', b') \<and> lastCheck c' = lastCheck c"
  using assms by (auto simp: checkBackend_def Let_def IsHealthy_def handleFailure_free)

text \<open>
  When the probe ends in a response, whatever its status, \<open>checkBackend\<close> writes
  \<open>lastCheck\<close> and then waits for ever for the mutex it holds itself: the
  counter and the health of the backend are as before.
\<close>

lemma checkBackend_response_blocked:
  assumes "\<not> mu c"
    and "Healthy b \<or> recoveryInterval c \<le> Since now (lastCheck c (URL b))"
  shows "checkBackend c b now now' (Response code) =
           Blocked (c\<lparr>mu := True, lastCheck := (lastCheck c)(URL b \<mapsto> now')\<rparr>, b)"
  using assms by (auto simp: checkBackend_def Let_def IsHealthy_def handler_held)

text \<open>
  Claim C3 (state machine of the health checker).  The claim does not hold of the
  code: an unhealthy backend with three counted failures whose probe, made after
  the recovery interval, is answered with status 200 is neither reset nor marked
  healthy, and a healthy backend answered with status 500 gets no failure counted.
  In both cases \<open>checkBackend\<close> stays blocked on \<open>c.mu\<close>.
\<close>

theorem checkBackend_status_probe_blocked:
  "checkBackend
     \<lparr>failureThreshold = 3, recoveryInterval = 15000000000,
      failures = [''http://b1'' \<mapsto> 3], lastCheck = [''http://b1'' \<mapsto> 0], mu = False\<rparr>
     \<lparr>URL = ''http://b1'', Weight = 1, CurrentWeight = 0, Healthy = False\<rparr>
     20000000000 20000000005 (Response 200) =
   Blocked
     (\<lparr>failureThreshold = 3, recoveryInterval = 15000000000,
       failures = [''http://b1'' \<mapsto> 3], lastCheck = [''http://b1'' \<mapsto> 20000000005], mu = True\<rparr>,
      \<lparr>URL = ''http://b1'', Weight = 1, CurrentWeight = 0, Healthy = False\<rparr>) \<and>
   checkBackend
     \<lparr>failureThreshold = 3, recoveryInterval = 15000000000,
      failures = Map.empty, lastCheck = Map.empty, mu = False\<rparr>
     \<lparr>URL = ''http://b1'', Weight = 1, CurrentWeight = 0, Healthy = True\<rparr>
     20000000000 20000000005 (Response 500) =
   Blocked
     (\<lparr>failureThreshold = 3, recoveryInterval = 15000000000,
       failures = Map.empty, lastCheck = [''http://b1'' \<mapsto> 20000000005], mu = True\<rparr>,
      \<lparr>URL = ''http://b1'', Weight = 1, CurrentWeight = 0, Healthy = True\<rparr>)"
  by (simp add: checkBackend_def Let_def IsHealthy_def Since_def StatusOK_def
      handleFailure_def handleSuccess_def)

text \<open>
  Claim C5 (bookkeeping of \<open>lastCheck\<close>).  The claim does not hold of the code: a
  probe that ends in a network error counts the failure and leaves \<open>lastCheck\<close>
  without an entry for the backend.
\<close>

theorem checkBackend_network_error_no_lastCheck:
  "checkBackend
     \<lparr>failureThreshold = 3, recoveryInterval = 15000000000,
      failures = Map.empty, lastCheck = Map.empty, mu = False\<rparr>
     \<lparr>URL = ''http://b1'', Weight = 1, CurrentWeight = 0, Healthy = True\<rparr>
     20000000000 20000000005 NetworkError =
   Returns
     (\<lparr>failureThreshold = 3, recoveryInterval = 15000000000,
       failures = [''http://b1'' \<mapsto> 1], lastCheck = Map.empty, mu = False\<rparr>,
      \<lparr>URL = ''http://b1'', Weight = 1, CurrentWeight = 0, Healthy = True\<rparr>)"
  by (simp add: checkBackend_def Let_def IsHealthy_def handleFailure_def failure_count_def
      wrap64_def)

end
